theory Spec2Isabelle
  imports Complex_Main
begin

section \<open>ECMAScript values\<close>

text \<open>
  A string value of the language is a list of UTF-16 code units, each a number below
  65536. A text that the program scans code unit by code unit (a reply of the model, the
  content of a file) is a \<^typ>\<open>string\<close>, one \<^typ>\<open>char\<close> for one code unit: the
  development covers such texts whose code units are below 256. \<open>lit\<close> reads a text as
  a string value. A number is an exact rational, NaN or an infinity: every binary64 value
  is one of these, and the comparisons, \<open>Math.min\<close> and \<open>Math.max\<close> used by the program
  are exact on them.
\<close>

type_synonym ustring = "nat list"

definition lit :: "string \<Rightarrow> ustring" where
  "lit s = map of_char s"

datatype jsnum = Fin rat | NaN | PInf | NInf

datatype json =
    JNull
  | JBool bool
  | JNum jsnum
  | JStr ustring
  | JArr "json list"
  | JObj "(ustring \<times> json) list"

text \<open>
  A value that may be \<open>undefined\<close> is a \<^typ>\<open>json option\<close>, \<open>None\<close> being
  \<open>undefined\<close>.
\<close>

type_synonym jsval = "json option"

text \<open>
  The conversions between strings and numbers (\<open>StringToNumber\<close> and
  \<open>Number::toString\<close>) are built into the language; the program's functions take them
  as a parameter.
\<close>

record builtins =
  StringToNumber :: "ustring \<Rightarrow> jsnum"
  NumberToString :: "jsnum \<Rightarrow> ustring"

fun js_lt :: "jsnum \<Rightarrow> jsnum \<Rightarrow> bool" where
  "js_lt (Fin a) (Fin b) = (a < b)"
| "js_lt (Fin a) PInf = True"
| "js_lt NInf (Fin b) = True"
| "js_lt NInf PInf = True"
| "js_lt _ _ = False"

definition js_gt :: "jsnum \<Rightarrow> jsnum \<Rightarrow> bool" where
  "js_gt a b = js_lt b a"

text \<open>\<open>a <= b\<close> of the language: false as soon as one side is NaN.\<close>

definition js_le :: "jsnum \<Rightarrow> jsnum \<Rightarrow> bool" where
  "js_le a b = (a \<noteq> NaN \<and> b \<noteq> NaN \<and> \<not> js_lt b a)"

definition Math_min :: "jsnum \<Rightarrow> jsnum \<Rightarrow> jsnum" where
  "Math_min a b = (if a = NaN \<or> b = NaN then NaN else if js_lt b a then b else a)"

definition Math_max :: "jsnum \<Rightarrow> jsnum \<Rightarrow> jsnum" where
  "Math_max a b = (if a = NaN \<or> b = NaN then NaN else if js_lt a b then b else a)"

fun Number_isInteger :: "jsnum \<Rightarrow> bool" where
  "Number_isInteger (Fin r) = (r = of_int \<lfloor>r\<rfloor>)"
| "Number_isInteger _ = False"

definition num :: "int \<Rightarrow> jsnum" where
  "num i = Fin (of_int i)"

text \<open>Property access \<open>v.k\<close>: the last member of that name, \<open>undefined\<close> when there is none.\<close>

fun lookup :: "(ustring \<times> json) list \<Rightarrow> ustring \<Rightarrow> jsval" where
  "lookup [] k = None"
| "lookup ((k', v) # kvs) k = (case lookup kvs k of Some w \<Rightarrow> Some w | None \<Rightarrow> if k' = k then Some v else None)"

fun getProp :: "json \<Rightarrow> ustring \<Rightarrow> jsval" where
  "getProp (JObj kvs) k = lookup kvs k"
| "getProp _ k = None"

text \<open>The operator \<open>a ?? b\<close>.\<close>

fun nullish :: "jsval \<Rightarrow> jsval \<Rightarrow> jsval" where
  "nullish None b = b"
| "nullish (Some JNull) b = b"
| "nullish (Some v) b = Some v"

fun truthy :: "jsval \<Rightarrow> bool" where
  "truthy None = False"
| "truthy (Some JNull) = False"
| "truthy (Some (JBool b)) = b"
| "truthy (Some (JNum n)) = (n \<noteq> NaN \<and> n \<noteq> Fin 0)"
| "truthy (Some (JStr s)) = (s \<noteq> [])"
| "truthy (Some _) = True"

fun join :: "'a list \<Rightarrow> 'a list list \<Rightarrow> 'a list" where
  "join sep [] = []"
| "join sep [x] = x"
| "join sep (x # y # ys) = x @ sep @ join sep (y # ys)"

text \<open>
  A conversion that throws is a sum: \<open>Inl TypeError\<close> is the exception. \<open>String(v)\<close>
  throws on an object that was parsed with a member \<open>toString\<close> (no parsed value can be
  called); any other object prints as \<open>[object Object]\<close>, an array as its elements joined
  by commas, \<open>null\<close> among them as nothing.
\<close>

datatype exn = TypeError

fun sequence :: "(exn + 'a) list \<Rightarrow> exn + 'a list" where
  "sequence [] = Inr []"
| "sequence (Inl e # rs) = Inl e"
| "sequence (Inr x # rs) = (case sequence rs of Inl e \<Rightarrow> Inl e | Inr xs \<Rightarrow> Inr (x # xs))"

fun String_of :: "builtins \<Rightarrow> json \<Rightarrow> exn + ustring" where
  "String_of B JNull = Inr (lit ''null'')"
| "String_of B (JBool b) = Inr (if b then lit ''true'' else lit ''false'')"
| "String_of B (JNum n) = Inr (NumberToString B n)"
| "String_of B (JStr s) = Inr s"
| "String_of B (JArr xs) =
    (case sequence (map (\<lambda>x. if x = JNull then Inr [] else String_of B x) xs) of
       Inl e \<Rightarrow> Inl e
     | Inr strs \<Rightarrow> Inr (join (lit '','') strs))"
| "String_of B (JObj kvs) =
    (if lookup kvs (lit ''toString'') = None then Inr (lit ''[object Object]'') else Inl TypeError)"

definition String_js :: "builtins \<Rightarrow> jsval \<Rightarrow> exn + ustring" where
  "String_js B v = (case v of None \<Rightarrow> Inr (lit ''undefined'') | Some x \<Rightarrow> String_of B x)"

text \<open>\<open>Number(v)\<close>; arrays and objects go through their string.\<close>

fun Number_js :: "builtins \<Rightarrow> jsval \<Rightarrow> exn + jsnum" where
  "Number_js B None = Inr NaN"
| "Number_js B (Some JNull) = Inr (Fin 0)"
| "Number_js B (Some (JBool b)) = Inr (if b then Fin 1 else Fin 0)"
| "Number_js B (Some (JNum n)) = Inr n"
| "Number_js B (Some (JStr s)) = Inr (StringToNumber B s)"
| "Number_js B (Some v) = (case String_of B v of Inl e \<Rightarrow> Inl e | Inr s \<Rightarrow> Inr (StringToNumber B s))"

fun is_string :: "jsval \<Rightarrow> bool" where
  "is_string (Some (JStr s)) = True"
| "is_string _ = False"

fun Array_isArray :: "jsval \<Rightarrow> bool" where
  "Array_isArray (Some (JArr xs)) = True"
| "Array_isArray _ = False"

section \<open>Strings and regular expressions\<close>

text \<open>
  White space, as \<open>\s\<close> and \<open>trim()\<close> read it: tab, line feed, vertical tab, form feed,
  carriage return, space and the no-break space (the code units below 256 of the
  language's set).
\<close>

definition is_digit :: "char \<Rightarrow> bool" where
  "is_digit c = (48 \<le> (of_char c :: nat) \<and> (of_char c :: nat) \<le> 57)"

definition is_space :: "char \<Rightarrow> bool" where
  "is_space c = ((of_char c :: nat) \<in> {9, 10, 11, 12, 13, 32, 160})"

definition trim :: "string \<Rightarrow> string" where
  "trim s = rev (dropWhile is_space (rev (dropWhile is_space s)))"

text \<open>
  A regular expression is modelled by its matcher: given the code unit before a position
  (\<open>None\<close> at the start of the text) and the text from that position on, the length of
  the match starting there, if there is one.
\<close>

type_synonym matcher = "char option \<Rightarrow> string \<Rightarrow> nat option"

text \<open>
  \<open>text.replace(re, ...)\<close> for a global expression: matches are taken from left to
  right and do not overlap; \<open>rep\<close> maps the matched text to its replacement. After an
  empty match the scan copies one code unit and moves on.
\<close>

function gsub :: "matcher \<Rightarrow> (string \<Rightarrow> string) \<Rightarrow> char option \<Rightarrow> string \<Rightarrow> string" where
  "gsub m rep prev [] = (case m prev [] of None \<Rightarrow> [] | Some n \<Rightarrow> rep [])"
| "gsub m rep prev (c # cs) =
    (case m prev (c # cs) of
       None \<Rightarrow> c # gsub m rep (Some c) cs
     | Some n \<Rightarrow>
         if n = 0 then rep [] @ c # gsub m rep (Some c) cs
         else rep (take n (c # cs)) @ gsub m rep (Some (last (take n (c # cs)))) (drop n (c # cs)))"
  by pat_completeness auto

termination
  by (relation "measure (\<lambda>(m, rep, prev, s). length s)") auto

definition replace_all :: "matcher \<Rightarrow> (string \<Rightarrow> string) \<Rightarrow> string \<Rightarrow> string" where
  "replace_all m rep s = gsub m rep None s"

text \<open>Matching under the flag \<open>i\<close>: only the ASCII letters have two cases.\<close>

definition lower :: "char \<Rightarrow> char" where
  "lower c = (if 65 \<le> (of_char c :: nat) \<and> (of_char c :: nat) \<le> 90 then char_of ((of_char c :: nat) + 32) else c)"

fun ci_prefix :: "string \<Rightarrow> string \<Rightarrow> bool" where
  "ci_prefix [] s = True"
| "ci_prefix (p # ps) [] = False"
| "ci_prefix (p # ps) (c # cs) = (lower c = lower p \<and> ci_prefix ps cs)"

text \<open>The offset of the first occurrence of \<open>p\<close>, in any letter case.\<close>

fun find_ci :: "string \<Rightarrow> string \<Rightarrow> nat option" where
  "find_ci p [] = (if ci_prefix p [] then Some 0 else None)"
| "find_ci p (c # cs) = (if ci_prefix p (c # cs) then Some 0 else map_option Suc (find_ci p cs))"

section \<open>The content sanitizer\<close>

text \<open>
  \<open>/<think>[\s\S]*?<\/think>/gi\<close>: the opening marker, then as little as possible up to
  the first closing marker.
\<close>

definition think_block :: matcher where
  "think_block prev s =
    (if ci_prefix ''<think>'' s
     then (case find_ci ''</think>'' (drop 7 s) of None \<Rightarrow> None | Some k \<Rightarrow> Some (7 + k + 8))
     else None)"

definition stripThinkTags :: "string \<Rightarrow> string" where
  "stripThinkTags content = trim (replace_all think_block (\<lambda>matched. []) content)"

text \<open>
  The secret-shaped patterns. \<open>\w\<close> is a letter, a digit or the underscore; \<open>\b\<close> holds
  between two positions of which exactly one carries such a code unit.
\<close>

definition is_upper :: "char \<Rightarrow> bool" where
  "is_upper c = (65 \<le> (of_char c :: nat) \<and> (of_char c :: nat) \<le> 90)"

definition is_lower :: "char \<Rightarrow> bool" where
  "is_lower c = (97 \<le> (of_char c :: nat) \<and> (of_char c :: nat) \<le> 122)"

definition is_alnum :: "char \<Rightarrow> bool" where
  "is_alnum c = (is_lower c \<or> is_upper c \<or> is_digit c)"

definition is_word :: "char \<Rightarrow> bool" where
  "is_word c = (is_alnum c \<or> c = CHR ''_'')"

definition is_upper_digit :: "char \<Rightarrow> bool" where
  "is_upper_digit c = (is_digit c \<or> is_upper c)"

definition is_hex :: "char \<Rightarrow> bool" where
  "is_hex c = (is_digit c
     \<or> (97 \<le> (of_char c :: nat) \<and> (of_char c :: nat) \<le> 102)
     \<or> (65 \<le> (of_char c :: nat) \<and> (of_char c :: nat) \<le> 70))"

definition is_quote :: "char \<Rightarrow> bool" where
  "is_quote c = (c = CHR 0x22 \<or> c = CHR 0x27)"

fun word_at :: "char option \<Rightarrow> bool" where
  "word_at None = False"
| "word_at (Some c) = is_word c"

definition boundary :: "char option \<Rightarrow> char option \<Rightarrow> bool" where
  "boundary before after = (word_at before \<noteq> word_at after)"

text \<open>The code units on both sides of the position \<open>k > 0\<close> of a text.\<close>

definition boundary_at :: "string \<Rightarrow> nat \<Rightarrow> bool" where
  "boundary_at s k = boundary (Some (s ! (k - 1))) (if k < length s then Some (s ! k) else None)"

text \<open>
  \<open>\bPREFIX[class]{lo,hi}\b\<close> with a non-empty prefix: after the prefix the repetition
  takes as many code units of the class as it can, at most \<open>hi\<close> (\<open>None\<close>: no bound), and
  gives them back one by one, down to \<open>lo\<close>, until \<open>\b\<close> holds behind it.
\<close>

definition token_re :: "string \<Rightarrow> (char \<Rightarrow> bool) \<Rightarrow> nat \<Rightarrow> nat option \<Rightarrow> matcher" where
  "token_re pre cls lo hi prev s =
    (if boundary prev (case s of [] \<Rightarrow> None | c # cs \<Rightarrow> Some c) \<and> take (length pre) s = pre
     then (let run = length (takeWhile cls (drop (length pre) s));
               most = (case hi of None \<Rightarrow> run | Some h \<Rightarrow> min h run)
           in map_option (\<lambda>k. length pre + k)
                (find (\<lambda>k. boundary_at s (length pre + k)) (rev [lo ..< Suc most])))
     else None)"

text \<open>\<open>["']?[0-9a-fA-F]{32}["']?\<close>: both quotes are optional and taken when present.\<close>

definition hex_run :: "nat \<Rightarrow> string \<Rightarrow> nat option" where
  "hex_run q s =
    (if 32 \<le> length (drop q s) \<and> list_all is_hex (take 32 (drop q s))
     then Some (q + 32 + (case drop (q + 32) s of [] \<Rightarrow> 0 | c # cs \<Rightarrow> if is_quote c then 1 else 0))
     else None)"

definition generic_hex :: matcher where
  "generic_hex prev s =
    (case (case s of [] \<Rightarrow> None | c # cs \<Rightarrow> if is_quote c then hex_run 1 s else None) of
       Some n \<Rightarrow> Some n
     | None \<Rightarrow> hex_run 0 s)"

definition SECRET_PATTERNS :: "matcher list" where
  "SECRET_PATTERNS =
    [ token_re ''AKIA'' is_upper_digit 16 (Some 16),
      token_re ''ghp_'' is_alnum 36 (Some 36),
      token_re ''gho_'' is_alnum 36 (Some 36),
      token_re ''github_pat_'' is_word 22 None,
      token_re ''sk-'' is_alnum 20 None,
      token_re ''gsk_'' is_alnum 20 None,
      generic_hex ]"

definition REDACT :: string where
  "REDACT = ''[REDACTED]''"

definition sanitizeContent :: "string \<Rightarrow> string" where
  "sanitizeContent content = foldl (\<lambda>out re. replace_all re (\<lambda>matched. REDACT) out) content SECRET_PATTERNS"

section \<open>\<open>JSON.parse\<close>\<close>

text \<open>
  The parser of the language, after ECMA-404: a lexer, and a pushdown machine over its
  tokens. A number's value is the built-in conversion of its text. An object keeps its
  members in the order of the text, a repeated name included (\<^const>\<open>lookup\<close> reads the
  last one, as property access does). The value of a string is a list of code units: a
  code unit of the text stands for itself, an escape \<open>\uXXXX\<close> for the code unit its four
  hexadecimal digits name, whatever it is.
\<close>

datatype jtoken =
    TLBrace | TRBrace | TLBracket | TRBracket | TColon | TComma
  | TString ustring | TNumber string | TTrue | TFalse | TNull

definition is_json_ws :: "char \<Rightarrow> bool" where
  "is_json_ws c = ((of_char c :: nat) \<in> {9, 10, 13, 32})"

definition hex_value :: "char \<Rightarrow> nat" where
  "hex_value c =
    (if is_digit c then of_char c - 48
     else if 97 \<le> (of_char c :: nat) then of_char c - 87
     else of_char c - 55)"

definition unicode_escape :: "string \<Rightarrow> nat option" where
  "unicode_escape ds =
    (if length ds = 4 \<and> list_all is_hex ds
     then Some (foldl (\<lambda>acc d. 16 * acc + hex_value d) 0 ds)
     else None)"

definition escape_char :: "char \<Rightarrow> nat option" where
  "escape_char e =
    (if e = CHR 0x22 then Some 0x22
     else if e = CHR 0x5C then Some 0x5C
     else if e = CHR ''/'' then Some 0x2F
     else if e = CHR ''b'' then Some 0x08
     else if e = CHR ''f'' then Some 0x0C
     else if e = CHR ''n'' then Some 0x0A
     else if e = CHR ''r'' then Some 0x0D
     else if e = CHR ''t'' then Some 0x09
     else None)"

text \<open>
  The text after an opening quote: the string's value and the number of code units up to
  and including the closing quote.
\<close>

fun lex_string :: "string \<Rightarrow> (ustring \<times> nat) option" where
  "lex_string [] = None"
| "lex_string (c # cs) =
    (if c = CHR 0x22 then Some ([], 1)
     else if c = CHR 0x5C then
       (case cs of
          [] \<Rightarrow> None
        | e # es \<Rightarrow>
            if e = CHR ''u'' then
              (case unicode_escape (take 4 es) of
                 None \<Rightarrow> None
               | Some ch \<Rightarrow> map_option (\<lambda>(str, n). (ch # str, n + 6)) (lex_string (drop 4 es)))
            else
              (case escape_char e of
                 None \<Rightarrow> None
               | Some ch \<Rightarrow> map_option (\<lambda>(str, n). (ch # str, n + 2)) (lex_string es)))
     else if (of_char c :: nat) < 32 then None
     else map_option (\<lambda>(str, n). (of_char c # str, n + 1)) (lex_string cs))"

text \<open>
  The number at the head of a text, part by part: a minus sign; the integer, a single 0
  or digits; a point with digits behind it; an exponent mark, a sign, digits. Each
  function gives the length of its part, 0 when the part is not there.
\<close>

definition sign_len :: "string \<Rightarrow> nat" where
  "sign_len s = (case s of c # cs \<Rightarrow> if c = CHR ''-'' then 1 else 0 | [] \<Rightarrow> 0)"

definition int_len :: "string \<Rightarrow> nat" where
  "int_len s = (case s of c # cs \<Rightarrow> if c = CHR ''0'' then 1 else length (takeWhile is_digit s) | [] \<Rightarrow> 0)"

definition frac_len :: "string \<Rightarrow> nat" where
  "frac_len s =
    (case s of
       c # cs \<Rightarrow> if c = CHR ''.'' \<and> takeWhile is_digit cs \<noteq> [] then 1 + length (takeWhile is_digit cs) else 0
     | [] \<Rightarrow> 0)"

definition exp_len :: "string \<Rightarrow> nat" where
  "exp_len s =
    (case s of
       c # cs \<Rightarrow>
         if c = CHR ''e'' \<or> c = CHR ''E'' then
           (let sg = (case cs of d # ds \<Rightarrow> if d = CHR ''+'' \<or> d = CHR ''-'' then 1 else 0 | [] \<Rightarrow> 0);
                digits = length (takeWhile is_digit (drop sg cs))
            in if digits = 0 then 0 else 1 + sg + digits)
         else 0
     | [] \<Rightarrow> 0)"

definition lex_number :: "string \<Rightarrow> nat option" where
  "lex_number s =
    (let a = sign_len s;
         b = int_len (drop a s);
         c = frac_len (drop (a + b) s);
         d = exp_len (drop (a + b + c) s)
     in if b = 0 then None else Some (a + b + c + d))"

function tokenize :: "string \<Rightarrow> jtoken list option" where
  "tokenize [] = Some []"
| "tokenize (c # cs) =
    (if is_json_ws c then tokenize cs
     else if c = CHR ''{'' then map_option ((#) TLBrace) (tokenize cs)
     else if c = CHR ''}'' then map_option ((#) TRBrace) (tokenize cs)
     else if c = CHR ''['' then map_option ((#) TLBracket) (tokenize cs)
     else if c = CHR '']'' then map_option ((#) TRBracket) (tokenize cs)
     else if c = CHR '':'' then map_option ((#) TColon) (tokenize cs)
     else if c = CHR '','' then map_option ((#) TComma) (tokenize cs)
     else if c = CHR 0x22 then
       (case lex_string cs of
          None \<Rightarrow> None
        | Some (str, n) \<Rightarrow> map_option ((#) (TString str)) (tokenize (drop n cs)))
     else if c = CHR ''-'' \<or> is_digit c then
       (case lex_number (c # cs) of
          None \<Rightarrow> None
        | Some n \<Rightarrow> map_option ((#) (TNumber (take n (c # cs)))) (tokenize (drop (n - 1) cs)))
     else if take 4 (c # cs) = ''true'' then map_option ((#) TTrue) (tokenize (drop 3 cs))
     else if take 5 (c # cs) = ''false'' then map_option ((#) TFalse) (tokenize (drop 4 cs))
     else if take 4 (c # cs) = ''null'' then map_option ((#) TNull) (tokenize (drop 3 cs))
     else None)"
  by pat_completeness auto

termination
  by (relation "measure length") auto

text \<open>
  The machine: what may come next, and the open arrays and objects, innermost first. An
  open array holds its elements so far, last first; an open object its members so far and
  the name that waits for its value.
\<close>

datatype expect =
    EValue | EValueOrClose | ENameOrClose | EName | EColon | ECommaOrClose | EDone json

datatype frame = ArrayFrame "json list" | ObjectFrame "(ustring \<times> json) list" "ustring option"

type_synonym pstate = "expect \<times> frame list"

text \<open>A complete value goes to the innermost open container, or ends the text.\<close>

fun deliver :: "json \<Rightarrow> frame list \<Rightarrow> pstate option" where
  "deliver v [] = Some (EDone v, [])"
| "deliver v (ArrayFrame xs # st) = Some (ECommaOrClose, ArrayFrame (v # xs) # st)"
| "deliver v (ObjectFrame kvs (Some k) # st) = Some (ECommaOrClose, ObjectFrame (kvs @ [(k, v)]) None # st)"
| "deliver v (ObjectFrame kvs None # st) = None"

fun scalar :: "builtins \<Rightarrow> jtoken \<Rightarrow> json option" where
  "scalar B (TString str) = Some (JStr str)"
| "scalar B (TNumber lexeme) = Some (JNum (StringToNumber B (lit lexeme)))"
| "scalar B TTrue = Some (JBool True)"
| "scalar B TFalse = Some (JBool False)"
| "scalar B TNull = Some JNull"
| "scalar B _ = None"

fun begin_value :: "builtins \<Rightarrow> jtoken \<Rightarrow> frame list \<Rightarrow> pstate option" where
  "begin_value B TLBrace st = Some (ENameOrClose, ObjectFrame [] None # st)"
| "begin_value B TLBracket st = Some (EValueOrClose, ArrayFrame [] # st)"
| "begin_value B t st = (case scalar B t of None \<Rightarrow> None | Some v \<Rightarrow> deliver v st)"

fun close_array :: "frame list \<Rightarrow> pstate option" where
  "close_array (ArrayFrame xs # st) = deliver (JArr (rev xs)) st"
| "close_array _ = None"

fun close_object :: "frame list \<Rightarrow> pstate option" where
  "close_object (ObjectFrame kvs None # st) = deliver (JObj kvs) st"
| "close_object _ = None"

fun begin_member :: "jtoken \<Rightarrow> frame list \<Rightarrow> pstate option" where
  "begin_member (TString k) (ObjectFrame kvs None # st) = Some (EColon, ObjectFrame kvs (Some k) # st)"
| "begin_member _ _ = None"

fun pstep :: "builtins \<Rightarrow> pstate \<Rightarrow> jtoken \<Rightarrow> pstate option" where
  "pstep B (EValue, st) t = begin_value B t st"
| "pstep B (EValueOrClose, st) t = (if t = TRBracket then close_array st else begin_value B t st)"
| "pstep B (ENameOrClose, st) t = (if t = TRBrace then close_object st else begin_member t st)"
| "pstep B (EName, st) t = begin_member t st"
| "pstep B (EColon, st) t = (if t = TColon then Some (EValue, st) else None)"
| "pstep B (ECommaOrClose, st) t =
    (if t = TComma then
       (case st of
          ArrayFrame xs # st' \<Rightarrow> Some (EValue, st)
        | ObjectFrame kvs k # st' \<Rightarrow> Some (EName, st)
        | [] \<Rightarrow> None)
     else if t = TRBracket then close_array st
     else if t = TRBrace then close_object st
     else None)"
| "pstep B (EDone v, st) t = None"

fun prun :: "builtins \<Rightarrow> pstate \<Rightarrow> jtoken list \<Rightarrow> pstate option" where
  "prun B ps [] = Some ps"
| "prun B ps (t # ts) = (case pstep B ps t of None \<Rightarrow> None | Some ps' \<Rightarrow> prun B ps' ts)"

text \<open>\<open>None\<close> is the \<open>SyntaxError\<close>.\<close>

definition JSON_parse :: "builtins \<Rightarrow> string \<Rightarrow> json option" where
  "JSON_parse B input =
    (case tokenize input of
       None \<Rightarrow> None
     | Some ts \<Rightarrow>
         (case prun B (EValue, []) ts of
            Some (EDone v, st) \<Rightarrow> Some v
          | _ \<Rightarrow> None))"

section \<open>The response parser\<close>

text \<open>
  \<open>escapeNewlinesInJsonStrings\<close>: the loop over the text, with its two flags. A line feed
  or carriage return inside a double-quoted string becomes the two code units \<open>\n\<close>; a
  carriage return takes a following line feed with it.
\<close>

function escapeNewlinesInJsonStrings_from :: "bool \<Rightarrow> bool \<Rightarrow> string \<Rightarrow> string" where
  "escapeNewlinesInJsonStrings_from inString escapeNext [] = []"
| "escapeNewlinesInJsonStrings_from inString escapeNext (c # cs) =
    (if escapeNext then c # escapeNewlinesInJsonStrings_from inString False cs
     else if c = CHR 0x5C \<and> inString then c # escapeNewlinesInJsonStrings_from inString True cs
     else if c = CHR 0x22 \<and> \<not> inString then c # escapeNewlinesInJsonStrings_from True escapeNext cs
     else if c = CHR 0x22 \<and> inString then c # escapeNewlinesInJsonStrings_from False escapeNext cs
     else if inString \<and> (c = CHR 0x0A \<or> c = CHR 0x0D) then
       [CHR 0x5C, CHR ''n''] @
         escapeNewlinesInJsonStrings_from inString escapeNext
           (if c = CHR 0x0D \<and> take 1 cs = [CHR 0x0A] then drop 1 cs else cs)
     else c # escapeNewlinesInJsonStrings_from inString escapeNext cs)"
  by pat_completeness auto
termination
  by (relation "measure (\<lambda>(inString, escapeNext, s). length s)") auto

definition escapeNewlinesInJsonStrings :: "string \<Rightarrow> string" where
  "escapeNewlinesInJsonStrings jsonStr = escapeNewlinesInJsonStrings_from False False jsonStr"

text \<open>
  The loop of \<open>extractJsonObject\<close> from the first opening brace on, with its variables
  \<open>depth\<close>, \<open>inString\<close>, \<open>escapeNext\<close> and \<open>quoteChar\<close>: the offset of the brace that
  brings the depth back to 0, \<open>None\<close> when the text ends before (\<open>end\<close> stays \<open>-1\<close>).
\<close>

fun matching_brace :: "int \<Rightarrow> bool \<Rightarrow> bool \<Rightarrow> char \<Rightarrow> string \<Rightarrow> nat option" where
  "matching_brace depth inString escapeNext quoteChar [] = None"
| "matching_brace depth inString escapeNext quoteChar (c # cs) =
    (if inString then
       (if escapeNext then map_option Suc (matching_brace depth inString False quoteChar cs)
        else if c = CHR 0x5C then map_option Suc (matching_brace depth inString True quoteChar cs)
        else if c = quoteChar then map_option Suc (matching_brace depth False escapeNext quoteChar cs)
        else map_option Suc (matching_brace depth inString escapeNext quoteChar cs))
     else if c = CHR 0x22 \<or> c = CHR 0x27 then map_option Suc (matching_brace depth True escapeNext c cs)
     else if c = CHR ''{'' then map_option Suc (matching_brace (depth + 1) inString escapeNext quoteChar cs)
     else if c = CHR ''}'' then
       (if depth - 1 = 0 then Some 0
        else map_option Suc (matching_brace (depth - 1) inString escapeNext quoteChar cs))
     else map_option Suc (matching_brace depth inString escapeNext quoteChar cs))"

text \<open>\<open>/,(\s*[}\]])/g\<close>, replaced by its group: the comma goes, the rest of the match stays.\<close>

definition trailing_comma :: matcher where
  "trailing_comma prev s =
    (case s of
       [] \<Rightarrow> None
     | c # cs \<Rightarrow>
         if c = CHR '','' then
           (case drop (length (takeWhile is_space cs)) cs of
              [] \<Rightarrow> None
            | d # ds \<Rightarrow> if d = CHR ''}'' \<or> d = CHR '']'' then Some (1 + length (takeWhile is_space cs) + 1) else None)
         else None)"

definition extractJsonObject :: "builtins \<Rightarrow> string \<Rightarrow> json option" where
  "extractJsonObject B raw =
    (let cleaned = trim (stripThinkTags raw);
         first = length (takeWhile (\<lambda>c. c \<noteq> CHR ''{'') cleaned)
     in if first = length cleaned then None
        else (case matching_brace 0 False False (CHR 0x22) (drop first cleaned) of
                None \<Rightarrow> None
              | Some end \<Rightarrow>
                  JSON_parse B
                    (escapeNewlinesInJsonStrings
                      (replace_all trailing_comma tl (take (end + 1) (drop first cleaned))))))"

section \<open>The completion service\<close>

text \<open>
  The outcome of a completion call: it throws, or it returns with the content of the
  first choice, if there is one. The reply is the service's; it is not a function of the
  prompt here, so the prompts are not built.
\<close>

datatype completion = Throws | Content "string option"

section \<open>The puzzle assembler\<close>

record SelectedRange =
  startLine :: jsnum
  endLine :: jsnum

record AnswerKey = SelectedRange +
  explanationHints :: json
  insufficientContextAllowed :: bool
  task_type :: jsval
  given :: jsval
  choices :: jsval
  answer :: jsval
  common_mistakes :: jsval

record Repo =
  owner :: ustring
  name :: ustring
  defaultBranch :: ustring
  licenseUrl :: ustring

record FileInfo =
  path :: ustring
  content :: string
  language :: ustring
  sizeBytes :: nat

record Commit =
  sha :: ustring
  branch :: ustring

record Puzzle =
  puzzleId :: ustring
  repo :: Repo
  fileInfo :: FileInfo
  commit :: Commit
  question :: ustring
  answerKey :: AnswerKey
  explanation :: ustring
  gradingRubric :: ustring
  category :: ustring
  puzzle_language :: ustring

text \<open>\<open>LLMPuzzleRaw\<close>: what \<open>objToLLMPuzzleRaw\<close> keeps of the parsed object.\<close>

record LLMPuzzleRaw =
  raw_task_type :: jsval
  raw_question :: ustring
  raw_given :: jsval
  raw_choices :: jsval
  raw_answer :: jsval
  raw_explanation :: jsval
  raw_common_mistakes :: jsval
  raw_startLine :: "jsnum option"
  raw_endLine :: "jsnum option"
  raw_explanationHints :: jsval
  raw_gradingRubric :: jsval
  raw_insufficientContextAllowed :: bool

definition getKey :: "json \<Rightarrow> ustring \<Rightarrow> ustring \<Rightarrow> jsval" where
  "getKey obj snake camel = nullish (getProp obj snake) (getProp obj camel)"

text \<open>\<open>Inr None\<close> is the result \<open>null\<close>.\<close>

definition objToLLMPuzzleRaw :: "builtins \<Rightarrow> json \<Rightarrow> exn + LLMPuzzleRaw option" where
  "objToLLMPuzzleRaw B obj =
    (let question = nullish (getProp obj (lit ''question'')) (getProp obj (lit ''Question''));
         startLine = nullish (getProp obj (lit ''startLine'')) (getProp obj (lit ''start_line''));
         endLine = nullish (getProp obj (lit ''endLine'')) (getProp obj (lit ''end_line''))
     in case question of
          Some (JStr q) \<Rightarrow>
            (case Number_js B startLine of Inl e \<Rightarrow> Inl e | Inr sl \<Rightarrow>
             case Number_js B endLine of Inl e \<Rightarrow> Inl e | Inr el \<Rightarrow>
                if \<not> Number_isInteger sl \<or> \<not> Number_isInteger el \<or> js_lt sl (Fin 1) \<or> js_lt el (Fin 1)
                then Inr None
                else Inr (Some \<lparr>
                  raw_task_type = getKey obj (lit ''task_type'') (lit ''taskType''),
                  raw_question = q,
                  raw_given = getKey obj (lit ''given'') (lit ''given''),
                  raw_choices = nullish (getKey obj (lit ''choices'') (lit ''choices'')) None,
                  raw_answer = getKey obj (lit ''answer'') (lit ''answer''),
                  raw_explanation = getKey obj (lit ''explanation'') (lit ''explanation''),
                  raw_common_mistakes = nullish (getKey obj (lit ''common_mistakes'') (lit ''commonMistakes'')) None,
                  raw_startLine = Some sl,
                  raw_endLine = Some el,
                  raw_explanationHints = nullish (getKey obj (lit ''explanationHints'') (lit ''explanationHints'')) None,
                  raw_gradingRubric = getKey obj (lit ''gradingRubric'') (lit ''grading_rubric''),
                  raw_insufficientContextAllowed =
                    truthy (getKey obj (lit ''insufficientContextAllowed'') (lit ''insufficient_context_allowed'')) \<rparr>))
        | _ \<Rightarrow> Inr None)"

text \<open>
  What \<open>generatePuzzle\<close> has in hand for one file: the repository, the file as fetched,
  the resolved commit, the target language and its category.
\<close>

record Candidate =
  cand_owner :: ustring
  cand_name :: ustring
  cand_ref :: ustring
  cand_sha :: ustring
  cand_file :: FileInfo
  cand_language :: ustring
  cand_category :: ustring

definition MIN_LINES :: int where
  "MIN_LINES = 20"

text \<open>The seed script's copy of the generator has an upper bound as well.\<close>

definition MAX_LINES :: int where
  "MAX_LINES = 200"

text \<open>\<open>contentForLlm.split(/\n/).length\<close>: one more than the number of line feeds.\<close>

definition lineCountOf :: "string \<Rightarrow> int" where
  "lineCountOf contentForLlm = 1 + int (length (filter (\<lambda>c. c = CHR 0x0A) contentForLlm))"

definition clampLine :: "jsnum option \<Rightarrow> int \<Rightarrow> jsnum" where
  "clampLine l lineCount = Math_max (Fin 1) (Math_min (case l of None \<Rightarrow> Fin 1 | Some v \<Rightarrow> v) (num lineCount))"

text \<open>The constant \<open>gradingRubric\<close> of the body of \<open>generatePuzzle\<close>.\<close>

definition rubricOf :: "builtins \<Rightarrow> LLMPuzzleRaw \<Rightarrow> exn + ustring" where
  "rubricOf B parsed =
    (case raw_answer parsed of
       Some (JStr a) \<Rightarrow> Inr (lit ''Correct answer: '' @ a @ lit ''. Grade by exact match or rubric in explanation.'')
     | _ \<Rightarrow> String_js B (nullish (raw_gradingRubric parsed) (Some (JStr []))))"

text \<open>
  The body of \<open>generatePuzzle\<close> from the parsed record on (the server's copy and the
  seed script's copy are the same text): clamp, swap, build the puzzle. The two string
  coercions can throw.
\<close>

definition buildPuzzle :: "builtins \<Rightarrow> Candidate \<Rightarrow> int \<Rightarrow> LLMPuzzleRaw \<Rightarrow> exn + Puzzle" where
  "buildPuzzle B c lineCount parsed =
    (let s0 = clampLine (raw_startLine parsed) lineCount;
         e0 = clampLine (raw_endLine parsed) lineCount;
         (startLine, endLine) = (if js_gt s0 e0 then (e0, s0) else (s0, e0));
         puzzleId = cand_owner c @ lit '':'' @ cand_name c @ lit '':'' @ path (cand_file c) @ lit '':'' @ cand_sha c;
         licenseUrl = lit ''https://github.com/'' @ cand_owner c @ lit ''/'' @ cand_name c @ lit ''/blob/''
                        @ cand_ref c @ lit ''/LICENSE'';
         answerKey = \<lparr>
           startLine = startLine,
           endLine = endLine,
           explanationHints = (case raw_explanationHints parsed of Some (JArr xs) \<Rightarrow> JArr xs | _ \<Rightarrow> JArr []),
           insufficientContextAllowed = raw_insufficientContextAllowed parsed,
           task_type = (if is_string (raw_task_type parsed) then raw_task_type parsed else None),
           given = (case raw_given parsed of Some (JObj kvs) \<Rightarrow> Some (JObj kvs) | Some (JArr xs) \<Rightarrow> Some (JArr xs) | _ \<Rightarrow> None),
           choices = (if Array_isArray (raw_choices parsed) then raw_choices parsed else None),
           answer = (if is_string (raw_answer parsed) then raw_answer parsed else None),
           common_mistakes = (if Array_isArray (raw_common_mistakes parsed) then raw_common_mistakes parsed else None) \<rparr>
     in case rubricOf B parsed of
          Inl e \<Rightarrow> Inl e
        | Inr rubric \<Rightarrow>
       (case String_js B (nullish (raw_explanation parsed) (Some (JStr []))) of
          Inl e \<Rightarrow> Inl e
        | Inr expl \<Rightarrow>
            Inr \<lparr> puzzleId = puzzleId,
                  repo = \<lparr> owner = cand_owner c, name = cand_name c, defaultBranch = cand_ref c, licenseUrl = licenseUrl \<rparr>,
                  fileInfo = cand_file c,
                  commit = \<lparr> sha = cand_sha c, branch = cand_ref c \<rparr>,
                  question = raw_question parsed,
                  answerKey = answerKey,
                  explanation = expl,
                  gradingRubric = rubric,
                  category = cand_category c,
                  puzzle_language = cand_language c \<rparr>))"

text \<open>
  One round of the loop of \<open>generatePuzzle\<close>, from the fetched file on, with the outcome
  of the completion call as a parameter; \<open>seedCopy\<close> tells the seed script's copy from the
  server's. \<open>None\<close> is the round without a puzzle: a \<open>continue\<close> (the file is too short, has
  too few or too many lines, the reply holds no object, \<open>objToLLMPuzzleRaw\<close> returns
  \<open>null\<close>) or an exception of the \<open>try\<close> block, which the \<open>catch\<close> turns into the next
  round or, in the seed script for a rate limit, throws again.
\<close>

definition generateRound :: "bool \<Rightarrow> builtins \<Rightarrow> Candidate \<Rightarrow> completion \<Rightarrow> Puzzle option" where
  "generateRound seedCopy B c completion =
    (if length (content (cand_file c)) < 100 then None
     else
      (let contentForLlm = stripThinkTags (content (cand_file c));
           lineCount = lineCountOf contentForLlm
       in if lineCount < MIN_LINES then None
          else if seedCopy \<and> lineCount > MAX_LINES then None
          else
           (case completion of
              Throws \<Rightarrow> None
            | Content reply \<Rightarrow>
               (let raw = (case reply of None \<Rightarrow> [] | Some t \<Rightarrow> trim t)
                in case extractJsonObject B raw of
                     None \<Rightarrow> None
                   | Some obj \<Rightarrow>
                      if \<not> truthy (Some obj) then None
                      else (case objToLLMPuzzleRaw B obj of
                              Inr (Some parsed) \<Rightarrow>
                                (case buildPuzzle B c lineCount parsed of Inr p \<Rightarrow> Some p | Inl e \<Rightarrow> None)
                            | _ \<Rightarrow> None)))))"

section \<open>The grading engine\<close>

record Submission =
  sub_puzzleId :: ustring
  selectedRange :: "SelectedRange option"
  selectedRanges :: "SelectedRange list option"
  optionalExplanation :: "ustring option"
  insufficientContext :: bool

record GradeResult =
  correct :: bool
  result_insufficientContextAllowed :: bool
  result_explanation :: ustring
  whatYouMissed :: json
  expectedRange :: "SelectedRange option"

text \<open>\<open>/^```json?\s*|\s*```$/g\<close>: an opening fence at the start of the text, or a closing one at its end.\<close>

definition fence_re :: matcher where
  "fence_re prev s =
    (if prev = None \<and> take 6 s = ''```jso''
     then (let k = (case drop 6 s of c # cs \<Rightarrow> if c = CHR ''n'' then 7 else 6 | [] \<Rightarrow> 6)
           in Some (k + length (takeWhile is_space (drop k s))))
     else (let w = length (takeWhile is_space s)
           in if drop w s = ''```'' then Some (w + 3) else None))"

text \<open>\<open>None\<close> is \<open>null\<close>, returned when \<open>JSON.parse\<close> throws.\<close>

definition parseGradeJson :: "builtins \<Rightarrow> string \<Rightarrow> jsval" where
  "parseGradeJson B reply = JSON_parse B (replace_all fence_re (\<lambda>matched. []) (trim reply))"

definition field :: "jsval \<Rightarrow> ustring \<Rightarrow> jsval" where
  "field v k = (case v of None \<Rightarrow> None | Some x \<Rightarrow> getProp x k)"

definition gradeSubmission ::
  "builtins \<Rightarrow> (ustring \<Rightarrow> Puzzle option) \<Rightarrow> completion \<Rightarrow> Submission \<Rightarrow> GradeResult option" where
  "gradeSubmission B puzzleCache completion submission =
    (case puzzleCache (sub_puzzleId submission) of
       None \<Rightarrow> None
     | Some puzzle \<Rightarrow>
        (let expected = \<lparr> startLine = startLine (answerKey puzzle), endLine = endLine (answerKey puzzle) \<rparr>
         in if insufficientContext submission then
              (case completion of
                 Throws \<Rightarrow> None
               | Content c \<Rightarrow>
                  (let raw = (case c of None \<Rightarrow> [] | Some t \<Rightarrow> trim t);
                       parsed = parseGradeJson B raw
                   in if \<not> truthy parsed then None
                      else (case String_js B (nullish (field parsed (lit ''explanation'')) (Some (JStr []))) of
                              Inl e \<Rightarrow> None
                            | Inr expl \<Rightarrow>
                                Some \<lparr> correct = truthy (field parsed (lit ''correct'')),
                                       result_insufficientContextAllowed = truthy (field parsed (lit ''insufficientContextAllowed'')),
                                       result_explanation = expl,
                                       whatYouMissed = JNull,
                                       expectedRange = (if truthy (field parsed (lit ''correct'')) then None else Some expected) \<rparr>)))
            else
              (case completion of
                 Throws \<Rightarrow> None
               | Content c \<Rightarrow>
                  (let raw = (case c of None \<Rightarrow> [] | Some t \<Rightarrow> trim t);
                       parsed = parseGradeJson B raw
                   in if \<not> truthy parsed then None
                      else (case String_js B (nullish (field parsed (lit ''explanation'')) (Some (JStr []))) of
                              Inl e \<Rightarrow> None
                            | Inr expl \<Rightarrow>
                                Some \<lparr> correct = truthy (field parsed (lit ''correct'')),
                                       result_insufficientContextAllowed = insufficientContextAllowed (answerKey puzzle),
                                       result_explanation = expl,
                                       whatYouMissed = (case nullish (field parsed (lit ''whatYouMissed'')) (Some JNull) of
                                                          None \<Rightarrow> JNull | Some w \<Rightarrow> w),
                                       expectedRange = (if truthy (field parsed (lit ''correct'')) then None else Some expected) \<rparr>)))))"

section \<open>The grading boundary\<close>

definition MAX_EXPLANATION_LENGTH :: nat where
  "MAX_EXPLANATION_LENGTH = 2000"

fun is_object :: "jsval \<Rightarrow> bool" where
  "is_object (Some (JObj kvs)) = True"
| "is_object (Some (JArr xs)) = True"
| "is_object _ = False"

text \<open>
  The test on the two line numbers of a range: both numbers, neither below 1 nor above
  100000 (a comparison with NaN is false).
\<close>

definition readRange :: "json \<Rightarrow> SelectedRange option" where
  "readRange r =
    (case (getProp r (lit ''startLine''), getProp r (lit ''endLine'')) of
       (Some (JNum s), Some (JNum e)) \<Rightarrow>
         if js_lt s (Fin 1) \<or> js_lt e (Fin 1) \<or> js_gt s (Fin 100000) \<or> js_gt e (Fin 100000)
         then None else Some \<lparr> startLine = s, endLine = e \<rparr>
     | _ \<Rightarrow> None)"

text \<open>The loop over \<open>b.selectedRanges\<close>: it returns at the first bad item.\<close>

fun readRanges :: "json list \<Rightarrow> (nat \<times> string) + SelectedRange list" where
  "readRanges [] = Inr []"
| "readRanges (r # rs) =
    (if \<not> is_object (Some r) then Inl (400, ''Invalid selectedRanges item'')
     else (case readRange r of
             None \<Rightarrow> Inl (400, ''Invalid selectedRanges line numbers'')
           | Some x \<Rightarrow> (case readRanges rs of Inl e \<Rightarrow> Inl e | Inr xs \<Rightarrow> Inr (x # xs))))"

text \<open>An early \<open>return\<close> of an error ends the function: the steps are chained by \<open>andThen\<close>.\<close>

definition andThen :: "'e + 'a \<Rightarrow> ('a \<Rightarrow> 'e + 'b) \<Rightarrow> 'e + 'b" where
  "andThen r f = (case r of Inl e \<Rightarrow> Inl e | Inr x \<Rightarrow> f x)"

definition readPuzzleId :: "json \<Rightarrow> (nat \<times> string) + ustring" where
  "readPuzzleId b =
    (case getProp b (lit ''puzzleId'') of
       Some (JStr pid) \<Rightarrow>
         if length pid = 0 \<or> length pid > 500 then Inl (400, ''Invalid puzzleId'') else Inr pid
     | _ \<Rightarrow> Inl (400, ''Invalid puzzleId''))"

definition readInsufficientContext :: "json \<Rightarrow> (nat \<times> string) + bool" where
  "readInsufficientContext b =
    (case getProp b (lit ''insufficientContext'') of
       Some (JBool flag) \<Rightarrow> Inr flag
     | _ \<Rightarrow> Inl (400, ''Invalid insufficientContext''))"

definition readSelectedRanges :: "json \<Rightarrow> (nat \<times> string) + SelectedRange list" where
  "readSelectedRanges b =
    (case getProp b (lit ''selectedRanges'') of
       Some (JArr items) \<Rightarrow> readRanges items
     | _ \<Rightarrow> Inr [])"

text \<open>The single \<open>selectedRange\<close> is read only when the list is empty.\<close>

definition readSelectedRange :: "json \<Rightarrow> SelectedRange list \<Rightarrow> (nat \<times> string) + SelectedRange list" where
  "readSelectedRange b listed =
    (if length listed = 0 \<and> nullish (getProp b (lit ''selectedRange'')) None \<noteq> None
     then (case getProp b (lit ''selectedRange'') of
             Some r \<Rightarrow>
               if \<not> is_object (Some r) then Inl (400, ''Invalid selectedRange'')
               else (case readRange r of
                       None \<Rightarrow> Inl (400, ''Invalid selectedRange line numbers'')
                     | Some x \<Rightarrow> Inr [x])
           | None \<Rightarrow> Inr listed)
     else Inr listed)"

definition readOptionalExplanation :: "json \<Rightarrow> (nat \<times> string) + ustring option" where
  "readOptionalExplanation b =
    (case nullish (getProp b (lit ''optionalExplanation'')) None of
       None \<Rightarrow> Inr None
     | Some (JStr ex) \<Rightarrow>
         if length ex > MAX_EXPLANATION_LENGTH then Inl (400, ''optionalExplanation too long'')
         else Inr (Some ex)
     | Some _ \<Rightarrow> Inl (400, ''Invalid optionalExplanation''))"

definition validateSubmission :: "json \<Rightarrow> (nat \<times> string) + Submission" where
  "validateSubmission body =
    (if \<not> is_object (Some body) then Inl (400, ''Invalid body'')
     else
       andThen (readPuzzleId body) (\<lambda>pid.
       andThen (readInsufficientContext body) (\<lambda>flag.
       andThen (readSelectedRanges body) (\<lambda>listed.
       andThen (readSelectedRange body listed) (\<lambda>ranges.
       andThen (readOptionalExplanation body) (\<lambda>expl.
         if \<not> flag \<and> length ranges = 0
         then Inl (400, ''Select at least one line range or choose Insufficient context'')
         else Inr \<lparr> sub_puzzleId = pid,
                    selectedRange = (case ranges of [] \<Rightarrow> None | x # xs \<Rightarrow> Some x),
                    selectedRanges = Some ranges,
                    optionalExplanation = expl,
                    insufficientContext = flag \<rparr>))))))"



section \<open>An instance of the built-in conversions\<close>

text \<open>
  For evaluating examples: it agrees with the language on decimal integers (an optional
  minus sign and digits); elsewhere it is arbitrary, and no general theorem below
  depends on it.
\<close>

function show_nat :: "nat \<Rightarrow> ustring" where
  "show_nat n = (if n < 10 then [48 + n] else show_nat (n div 10) @ [48 + n mod 10])"
  by pat_completeness auto

termination
  by (relation "measure id") auto

definition is_udigit :: "nat \<Rightarrow> bool" where
  "is_udigit u = (48 \<le> u \<and> u \<le> 57)"

definition digits_value :: "ustring \<Rightarrow> nat" where
  "digits_value ds = foldl (\<lambda>acc d. 10 * acc + (d - 48)) 0 ds"

definition int_StringToNumber :: "ustring \<Rightarrow> jsnum" where
  "int_StringToNumber s =
    (case s of
       [] \<Rightarrow> Fin 0
     | c # cs \<Rightarrow>
         if c = 45 \<and> cs \<noteq> [] \<and> list_all is_udigit cs then Fin (- of_nat (digits_value cs))
         else if list_all is_udigit s then Fin (of_nat (digits_value s))
         else NaN)"

fun int_NumberToString :: "jsnum \<Rightarrow> ustring" where
  "int_NumberToString NaN = lit ''NaN''"
| "int_NumberToString PInf = lit ''Infinity''"
| "int_NumberToString NInf = lit ''-Infinity''"
| "int_NumberToString (Fin r) =
    (if r = of_int \<lfloor>r\<rfloor>
     then (if r < 0 then lit ''-'' @ show_nat (nat (- \<lfloor>r\<rfloor>)) else show_nat (nat \<lfloor>r\<rfloor>))
     else [])"

definition int_builtins :: builtins where
  "int_builtins = \<lparr> StringToNumber = int_StringToNumber, NumberToString = int_NumberToString \<rparr>"

section \<open>Readings for the statements, and examples\<close>

subsection \<open>The assembler\<close>

text \<open>The line numbers the parsed object declares, as \<open>objToLLMPuzzleRaw\<close> reads them.\<close>

definition declaredStart :: "builtins \<Rightarrow> json \<Rightarrow> exn + jsnum" where
  "declaredStart B obj = Number_js B (nullish (getProp obj (lit ''startLine'')) (getProp obj (lit ''start_line'')))"

definition declaredEnd :: "builtins \<Rightarrow> json \<Rightarrow> exn + jsnum" where
  "declaredEnd B obj = Number_js B (nullish (getProp obj (lit ''endLine'')) (getProp obj (lit ''end_line'')))"

text \<open>
  The number of lines of the candidate's file, as the generator counts them; the file
  passes the generator's tests on its length and its number of lines, so that the model
  is asked about it.
\<close>

definition fileLines :: "Candidate \<Rightarrow> int" where
  "fileLines c = lineCountOf (stripThinkTags (content (cand_file c)))"

definition reachesModel :: "bool \<Rightarrow> Candidate \<Rightarrow> bool" where
  "reachesModel seedCopy c =
    (100 \<le> length (content (cand_file c)) \<and> MIN_LINES \<le> fileLines c
     \<and> (if seedCopy then fileLines c \<le> MAX_LINES else True))"

text \<open>The reply as the generator and the grader read it: trimmed, an absent content as the empty text.\<close>

definition replyText :: "string option \<Rightarrow> string" where
  "replyText reply = (case reply of None \<Rightarrow> [] | Some t \<Rightarrow> trim t)"

text \<open>
  Assembly accepts an object: its question is a string and its declared lines are
  integers, at least 1.
\<close>

definition accepted :: "builtins \<Rightarrow> json \<Rightarrow> bool" where
  "accepted B obj =
    (is_string (nullish (getProp obj (lit ''question'')) (getProp obj (lit ''Question'')))
     \<and> (case (declaredStart B obj, declaredEnd B obj) of
          (Inr sl, Inr el) \<Rightarrow>
            Number_isInteger sl \<and> Number_isInteger el \<and> \<not> js_lt sl (Fin 1) \<and> \<not> js_lt el (Fin 1)
        | _ \<Rightarrow> False))"

text \<open>
  The rubric as the specification words it: the template around the answer when the
  answer is a string; otherwise the model's rubric, coerced to a string; otherwise the
  empty string. The explanation, coerced likewise. \<open>Inl\<close> is a coercion that throws.
\<close>

definition specRubric :: "builtins \<Rightarrow> json \<Rightarrow> exn + ustring" where
  "specRubric B obj =
    (case getProp obj (lit ''answer'') of
       Some (JStr a) \<Rightarrow> Inr (lit ''Correct answer: '' @ a @ lit ''. Grade by exact match or rubric in explanation.'')
     | _ \<Rightarrow> (case getKey obj (lit ''gradingRubric'') (lit ''grading_rubric'') of
                None \<Rightarrow> Inr []
              | Some JNull \<Rightarrow> Inr []
              | Some r \<Rightarrow> String_of B r))"

definition specExplanation :: "builtins \<Rightarrow> json \<Rightarrow> exn + ustring" where
  "specExplanation B obj =
    (case getProp obj (lit ''explanation'') of
       None \<Rightarrow> Inr []
     | Some JNull \<Rightarrow> Inr []
     | Some x \<Rightarrow> String_of B x)"

fun throws :: "exn + 'a \<Rightarrow> bool" where
  "throws (Inl e) = True"
| "throws (Inr x) = False"

text \<open>A file of \<open>n\<close> lines of 14 code units each, and the candidate that holds it.\<close>

definition nl :: string where
  "nl = [CHR 0x0A]"

definition lines_of_code :: "nat \<Rightarrow> string" where
  "lines_of_code n = concat (replicate n (''total += step;'' @ nl))"

definition example_candidate :: "nat \<Rightarrow> Candidate" where
  "example_candidate n = \<lparr>
     cand_owner = lit ''o'', cand_name = lit ''r'', cand_ref = lit ''main'', cand_sha = lit ''abc'',
     cand_file = \<lparr> path = lit ''a.ts'', content = lines_of_code n, language = lit ''typescript'',
                   sizeBytes = length (lines_of_code n) \<rparr>,
     cand_language = lit ''typescript'', cand_category = lit ''web'' \<rparr>"



definition scenarioA_object :: json where
  "scenarioA_object =
     JObj [(lit ''question'', JStr (lit ''Q'')), (lit ''startLine'', JNum (num 3)),
           (lit ''endLine'', JNum (num 2)), (lit ''answer'', JStr (lit ''X''))]"

text \<open>The reply of scenario A of the specification: prose, a fence, the object, prose.\<close>

definition scenarioA_lead :: string where
  "scenarioA_lead = ''Here is the puzzle:'' @ nl @ ''```json'' @ nl"

definition scenarioA_text :: string where
  \<open>scenarioA_text = ''{"question":"Q","startLine":3,"endLine":2,"answer":"X"}''\<close>

definition scenarioA_trail :: string where
  "scenarioA_trail = nl @ ''```'' @ nl @ ''I hope {this} helps. <think>or not}</think>''"

definition scenarioA_reply :: string where
  "scenarioA_reply = scenarioA_lead @ scenarioA_text @ scenarioA_trail"

text \<open>
  Replies whose rubric is the model's, a string or a number; one without a rubric; one
  whose rubric cannot be coerced.
\<close>

definition numeric_rubric_text :: string where
  \<open>numeric_rubric_text = ''{"question":"Q","startLine":3,"endLine":2,"gradingRubric":42}''\<close>

definition rubric_text :: string where
  \<open>rubric_text = ''{"question":"Q","startLine":3,"endLine":2,"answer":42,"grading_rubric":"Any line of the loop."}''\<close>

definition bare_text :: string where
  \<open>bare_text = ''{"question":"Q","startLine":3,"endLine":2}''\<close>

definition throwing_text :: string where
  \<open>throwing_text = ''{"question":"Q","startLine":3,"endLine":2,"gradingRubric":{"toString":1}}''\<close>

subsection \<open>The grader\<close>

text \<open>The reply as \<open>gradeSubmission\<close> reads it: trimmed, an absent content as the empty text, parsed.\<close>

definition parsedReply :: "builtins \<Rightarrow> string option \<Rightarrow> jsval" where
  "parsedReply B c = parseGradeJson B (case c of None \<Rightarrow> [] | Some t \<Rightarrow> trim t)"

definition expectedSpan :: "Puzzle \<Rightarrow> SelectedRange" where
  "expectedSpan puzzle = \<lparr> startLine = startLine (answerKey puzzle), endLine = endLine (answerKey puzzle) \<rparr>"

definition example_puzzle :: Puzzle where
  "example_puzzle =
    \<lparr> puzzleId = lit ''o:r:a.ts:abc'',
      repo = \<lparr> owner = lit ''o'', name = lit ''r'', defaultBranch = lit ''main'',
               licenseUrl = lit ''https://github.com/o/r/blob/main/LICENSE'' \<rparr>,
      fileInfo = \<lparr> path = lit ''a.ts'', content = [], language = lit ''typescript'', sizeBytes = 0 \<rparr>,
      commit = \<lparr> sha = lit ''abc'', branch = lit ''main'' \<rparr>,
      question = lit ''Q'',
      answerKey = \<lparr> startLine = num 4, endLine = num 9, explanationHints = JArr [],
                     insufficientContextAllowed = True, task_type = None, given = None, choices = None,
                     answer = None, common_mistakes = None \<rparr>,
      explanation = [],
      gradingRubric = [],
      category = lit ''web'',
      puzzle_language = lit ''typescript'' \<rparr>"

definition example_cache :: "ustring \<Rightarrow> Puzzle option" where
  "example_cache k = (if k = lit ''o:r:a.ts:abc'' then Some example_puzzle else None)"

text \<open>A learner who declines (insufficient context), and one who selects lines 4 to 9.\<close>

definition declining :: Submission where
  "declining = \<lparr> sub_puzzleId = lit ''o:r:a.ts:abc'', selectedRange = None, selectedRanges = Some [],
                  optionalExplanation = None, insufficientContext = True \<rparr>"

definition selecting :: Submission where
  "selecting = \<lparr> sub_puzzleId = lit ''o:r:a.ts:abc'',
                  selectedRange = Some \<lparr> startLine = num 4, endLine = num 9 \<rparr>,
                  selectedRanges = Some [\<lparr> startLine = num 4, endLine = num 9 \<rparr>],
                  optionalExplanation = None, insufficientContext = False \<rparr>"


subsection \<open>The boundary\<close>
















subsection \<open>The response parser\<close>

text \<open>
  An occurrence of the trailing-comma pattern somewhere in a text; the braces of a token
  list, counted from a depth: every token but the last keeps the depth above 0, and the
  last is the closing brace that brings it to 0; the open objects of the parser.
\<close>

fun has_trailing_comma :: "string \<Rightarrow> bool" where
  "has_trailing_comma [] = False"
| "has_trailing_comma (c # cs) = (trailing_comma None (c # cs) \<noteq> None \<or> has_trailing_comma cs)"

fun brace_delta :: "jtoken \<Rightarrow> int" where
  "brace_delta TLBrace = 1"
| "brace_delta TRBrace = - 1"
| "brace_delta _ = 0"

fun closes_at_end :: "int \<Rightarrow> jtoken list \<Rightarrow> bool" where
  "closes_at_end d [] = False"
| "closes_at_end d (t # ts) =
    (if ts = [] then t = TRBrace \<and> d + brace_delta t = 0
     else 1 \<le> d + brace_delta t \<and> closes_at_end (d + brace_delta t) ts)"

fun open_objects :: "frame list \<Rightarrow> int" where
  "open_objects [] = 0"
| "open_objects (ObjectFrame kvs k # st) = 1 + open_objects st"
| "open_objects (ArrayFrame xs # st) = open_objects st"

fun is_done :: "expect \<Rightarrow> bool" where
  "is_done (EDone v) = True"
| "is_done _ = False"

fun is_object_frame :: "frame \<Rightarrow> bool" where
  "is_object_frame (ObjectFrame kvs k) = True"
| "is_object_frame _ = False"

definition rooted :: "pstate \<Rightarrow> bool" where
  "rooted ps = (snd ps \<noteq> [] \<and> is_object_frame (last (snd ps)) \<and> \<not> is_done (fst ps))"

definition plain :: "char \<Rightarrow> bool" where
  "plain c = (c \<noteq> CHR 0x22 \<and> c \<noteq> CHR 0x27 \<and> c \<noteq> CHR ''{'' \<and> c \<noteq> CHR ''}'' \<and> c \<noteq> CHR 0x5C)"

definition numchar :: "char \<Rightarrow> bool" where
  "numchar x = (is_digit x \<or> x = CHR ''-'' \<or> x = CHR ''+'' \<or> x = CHR ''.'' \<or> x = CHR ''e'' \<or> x = CHR ''E'')"

text \<open>A reply whose question quotes a scratch-reasoning block.\<close>

definition quoting_text :: string where
  \<open>quoting_text = ''{"question":"What does <think>x</think> print?","startLine":1,"endLine":2}''\<close>

subsection \<open>The sanitizer\<close>

text \<open>
  No match of a pattern at any position of a text, each position with the code unit before
  it; the six key-shaped patterns, which come before the generic one.
\<close>

fun nomatch :: "matcher \<Rightarrow> char option \<Rightarrow> string \<Rightarrow> bool" where
  "nomatch m prev [] = (m prev [] = None)"
| "nomatch m prev (c # cs) = (m prev (c # cs) = None \<and> nomatch m (Some c) cs)"

definition KEY_PATTERNS :: "matcher list" where
  "KEY_PATTERNS = butlast SECRET_PATTERNS"

definition redactKeys :: "string \<Rightarrow> string" where
  "redactKeys s = foldl (\<lambda>out re. replace_all re (\<lambda>matched. REDACT) out) s KEY_PATTERNS"

text \<open>
  Texts: 32 hexadecimal digits glued to the front of an access key; a checksum of 32
  digits; a commit identifier of 40 digits.
\<close>

definition glued_key :: string where
  "glued_key = ''0123456789abcdef0123456789abcdefAKIA0123456789ABCDEF''"

definition md5_line :: string where
  "md5_line = ''md5 = d41d8cd98f00b204e9800998ecf8427e''"

definition commit_line :: string where
  "commit_line = ''commit 2fd4e1c67a2d28fced849ee1bb76e7391b93eb12''"

text \<open>
  What the six key-shaped patterns have in common: a prefix that begins with a word code
  unit other than \<open>R\<close> and holds no bracket, a class of word code units, at least one
  repetition.
\<close>

definition key_shape :: "string \<Rightarrow> (char \<Rightarrow> bool) \<Rightarrow> nat \<Rightarrow> bool" where
  "key_shape pre cls lo =
    (pre \<noteq> [] \<and> is_word (hd pre) \<and> hd pre \<noteq> CHR ''R'' \<and> CHR ''['' \<notin> set pre
     \<and> (\<forall>c. cls c \<longrightarrow> is_word c) \<and> 1 \<le> lo)"

definition run_of :: "string \<Rightarrow> (char \<Rightarrow> bool) \<Rightarrow> string \<Rightarrow> nat" where
  "run_of pre cls s = length (takeWhile cls (drop (length pre) s))"

text \<open>The texts such a pattern takes, whatever stands around them.\<close>

definition key_text :: "string \<Rightarrow> (char \<Rightarrow> bool) \<Rightarrow> nat \<Rightarrow> nat option \<Rightarrow> string \<Rightarrow> bool" where
  "key_text pre cls lo hi t =
    (length pre + lo \<le> length t
     \<and> (case hi of None \<Rightarrow> True | Some h \<Rightarrow> length t \<le> length pre + h)
     \<and> take (length pre) t = pre \<and> list_all cls (drop (length pre) t))"

text \<open>
  A matcher that takes exactly the texts of a family of words, each between two
  boundaries, none of them able to begin inside the redaction marker.
\<close>

definition key_like :: "(string \<Rightarrow> bool) \<Rightarrow> matcher \<Rightarrow> bool" where
  "key_like P m =
    ((\<forall>prev s n. (m prev s = Some n) =
        (n \<le> length s \<and> P (take n s) \<and> \<not> word_at prev \<and> (n < length s \<longrightarrow> \<not> is_word (s ! n))))
     \<and> (\<forall>t. P t \<longrightarrow> t \<noteq> [] \<and> is_word (hd t) \<and> is_word (last t) \<and> hd t \<noteq> CHR ''R''
              \<and> CHR ''['' \<notin> set t))"

text \<open>Wherever the first matcher finds nothing in a text, the second finds nothing.\<close>

fun fails_with :: "matcher \<Rightarrow> matcher \<Rightarrow> char option \<Rightarrow> string \<Rightarrow> bool" where
  "fails_with m m' prev [] = (m prev [] = None \<longrightarrow> m' prev [] = None)"
| "fails_with m m' prev (c # cs) =
    ((m prev (c # cs) = None \<longrightarrow> m' prev (c # cs) = None) \<and> fails_with m m' (Some c) cs)"

text \<open>
  The opening brackets of a text. No pattern of the list takes one, and the marker holds
  one: a replacement adds to their number.
\<close>

definition brackets :: "string \<Rightarrow> nat" where
  "brackets s = length (filter (\<lambda>c. c = CHR ''['') s)"

definition bracket_free :: "matcher \<Rightarrow> bool" where
  "bracket_free m = (\<forall>prev s n. m prev s = Some n \<longrightarrow> CHR ''['' \<notin> set (take n s))"
section \<open>Texts as string values\<close>

lemma lit_eq_iff [simp]: "lit a = lit b \<longleftrightarrow> a = b"
proof -
  have "inj (of_char :: char \<Rightarrow> nat)" by (rule injI) simp
  then show ?thesis unfolding lit_def by (rule inj_map_eq_map)
qed

lemma length_lit [simp]: "length (lit s) = length s"
  by (simp add: lit_def)

lemma lit_Nil [simp]: "lit [] = []"
  by (simp add: lit_def)

lemma lit_eq_Nil [simp]: "lit s = [] \<longleftrightarrow> s = []" "[] = lit s \<longleftrightarrow> s = []"
  by (auto simp: lit_def)

lemma lit_append: "lit (a @ b) = lit a @ lit b"
  by (simp add: lit_def)
section \<open>The assembled answer key\<close>




lemma accepted_iff:
  "accepted B obj \<longleftrightarrow> (\<exists>parsed. objToLLMPuzzleRaw B obj = Inr (Some parsed))"
proof -
  let ?q = "nullish (getProp obj (lit ''question'')) (getProp obj (lit ''Question''))"
  show ?thesis
  proof (cases "is_string ?q")
    case False
    then have "\<And>q. ?q \<noteq> Some (JStr q)" by auto
    then have "objToLLMPuzzleRaw B obj = Inr None"
      by (simp add: objToLLMPuzzleRaw_def Let_def split: option.splits json.splits)
    with False show ?thesis by (simp add: accepted_def)
  next
    case True
    then obtain q where q: "?q = Some (JStr q)" by (cases ?q rule: is_string.cases) auto
    show ?thesis
      by (cases "declaredStart B obj"; cases "declaredEnd B obj")
         (auto simp: accepted_def objToLLMPuzzleRaw_def Let_def q declaredStart_def declaredEnd_def)
  qed
qed

lemma accepted_truthy:
  assumes "accepted B obj"
  shows "truthy (Some obj)"
proof -
  from assms have "is_string (nullish (getProp obj (lit ''question'')) (getProp obj (lit ''Question'')))"
    by (simp add: accepted_def)
  then show ?thesis by (cases obj) simp_all
qed







subsection \<open>When a round assembles a puzzle\<close>

lemma getKey_same: "getKey obj k k = getProp obj k"
proof (cases "getProp obj k")
  case None
  then show ?thesis by (simp add: getKey_def)
next
  case (Some v)
  then show ?thesis by (cases v) (simp_all add: getKey_def)
qed

lemma objToLLMPuzzleRaw_fields:
  assumes "objToLLMPuzzleRaw B obj = Inr (Some parsed)"
  shows "raw_answer parsed = getProp obj (lit ''answer'')"
    and "raw_gradingRubric parsed = getKey obj (lit ''gradingRubric'') (lit ''grading_rubric'')"
    and "raw_explanation parsed = getProp obj (lit ''explanation'')"
  using assms
  by (auto simp: objToLLMPuzzleRaw_def Let_def getKey_same split: option.splits json.splits if_splits sum.splits)

lemma coerce_or_empty:
  "String_js B (nullish r (Some (JStr []))) = (case r of None \<Rightarrow> Inr [] | Some JNull \<Rightarrow> Inr [] | Some x \<Rightarrow> String_of B x)"
proof (cases r)
  case None
  then show ?thesis by (simp add: String_js_def)
next
  case (Some v)
  then show ?thesis by (cases v) (simp_all add: String_js_def)
qed

lemma rubricOf_specRubric:
  assumes "objToLLMPuzzleRaw B obj = Inr (Some parsed)"
  shows "rubricOf B parsed = specRubric B obj"
  unfolding rubricOf_def specRubric_def objToLLMPuzzleRaw_fields[OF assms] coerce_or_empty
  by (simp split: option.splits json.splits)

lemma explanation_specExplanation:
  assumes "objToLLMPuzzleRaw B obj = Inr (Some parsed)"
  shows "String_js B (nullish (raw_explanation parsed) (Some (JStr []))) = specExplanation B obj"
  unfolding specExplanation_def objToLLMPuzzleRaw_fields[OF assms] coerce_or_empty
  by (rule refl)

lemma buildPuzzle_rubric:
  assumes "buildPuzzle B c lineCount parsed = Inr p"
  shows "Inr (gradingRubric p) = rubricOf B parsed"
  using assms by (auto simp: buildPuzzle_def Let_def split: sum.splits prod.splits if_splits)

lemma buildPuzzle_throws:
  "(\<forall>p. buildPuzzle B c lineCount parsed \<noteq> Inr p) \<longleftrightarrow>
     throws (rubricOf B parsed) \<or> throws (String_js B (nullish (raw_explanation parsed) (Some (JStr []))))"
  by (cases "rubricOf B parsed"; cases "String_js B (nullish (raw_explanation parsed) (Some (JStr [])))")
     (auto simp: buildPuzzle_def Let_def split: prod.splits)

lemma generateRound_reached:
  assumes "reachesModel seedCopy c" and "extractJsonObject B (replyText reply) = Some obj"
    and "objToLLMPuzzleRaw B obj = Inr (Some parsed)"
  shows "generateRound seedCopy B c (Content reply) =
           (case buildPuzzle B c (fileLines c) parsed of Inr p \<Rightarrow> Some p | Inl e \<Rightarrow> None)"
proof -
  from assms(3) have "accepted B obj" unfolding accepted_iff by blast
  then have "truthy (Some obj)" by (rule accepted_truthy)
  with assms show ?thesis
    by (auto simp: generateRound_def reachesModel_def fileLines_def replyText_def Let_def
          split: if_splits)
qed

lemma generateRound_Some:
  assumes "generateRound seedCopy B c (Content reply) = Some p"
  shows "reachesModel seedCopy c
       \<and> (\<exists>obj parsed. extractJsonObject B (replyText reply) = Some obj
             \<and> objToLLMPuzzleRaw B obj = Inr (Some parsed)
             \<and> buildPuzzle B c (fileLines c) parsed = Inr p)"
  using assms
  by (auto simp: generateRound_def reachesModel_def fileLines_def replyText_def Let_def
        split: if_splits option.splits sum.splits)


lemma round_fails_only_on_coercion:
  assumes "reachesModel seedCopy c" and "extractJsonObject B (replyText reply) = Some obj"
    and "accepted B obj"
  shows "generateRound seedCopy B c (Content reply) = None
           \<longleftrightarrow> throws (specRubric B obj) \<or> throws (specExplanation B obj)"
proof -
  from assms(3) obtain parsed where parsed: "objToLLMPuzzleRaw B obj = Inr (Some parsed)"
    unfolding accepted_iff by blast
  have "generateRound seedCopy B c (Content reply) = None
          \<longleftrightarrow> (\<forall>p. buildPuzzle B c (fileLines c) parsed \<noteq> Inr p)"
    unfolding generateRound_reached[OF assms(1,2) parsed]
    by (cases "buildPuzzle B c (fileLines c) parsed") simp_all
  then show ?thesis
    unfolding buildPuzzle_throws rubricOf_specRubric[OF parsed] explanation_specExplanation[OF parsed] .
qed



section \<open>The grading rubric\<close>

lemma assembled_rubric:
  assumes "generateRound seedCopy B c (Content reply) = Some p"
  shows "\<exists>obj. extractJsonObject B (replyText reply) = Some obj \<and> accepted B obj
           \<and> specRubric B obj = Inr (gradingRubric p)"
proof -
  from generateRound_Some[OF assms] obtain obj parsed
    where obj: "extractJsonObject B (replyText reply) = Some obj"
      and parsed: "objToLLMPuzzleRaw B obj = Inr (Some parsed)"
      and p: "buildPuzzle B c (fileLines c) parsed = Inr p"
    by blast
  from parsed have "accepted B obj" unfolding accepted_iff by blast
  moreover have "specRubric B obj = Inr (gradingRubric p)"
    using buildPuzzle_rubric[OF p] rubricOf_specRubric[OF parsed] by simp
  ultimately show ?thesis using obj by blast
qed

lemma rubric_is_produced:
  assumes "reachesModel seedCopy c" and "extractJsonObject B (replyText reply) = Some obj"
    and "accepted B obj" and "\<not> throws (specExplanation B obj)"
  shows "map_option gradingRubric (generateRound seedCopy B c (Content reply))
           = (case specRubric B obj of Inr t \<Rightarrow> Some t | Inl e \<Rightarrow> None)"
proof (cases "generateRound seedCopy B c (Content reply)")
  case None
  with round_fails_only_on_coercion[OF assms(1-3)] assms(4) have "throws (specRubric B obj)" by simp
  with None show ?thesis by (cases "specRubric B obj") simp_all
next
  case (Some p)
  from assembled_rubric[OF Some] assms(2) have "specRubric B obj = Inr (gradingRubric p)" by auto
  with Some show ?thesis by simp
qed

text \<open>
  C7, as the program has it. Every puzzle a round assembles comes from an accepted
  parsed object, and its rubric is the one the specification words (\<open>specRubric\<close>): the
  fixed template around the answer when the object's \<open>answer\<close> is a string; otherwise the
  model's rubric (\<open>gradingRubric\<close>, else \<open>grading_rubric\<close>) coerced to a string; otherwise,
  when that is missing or \<open>null\<close>, the empty string. For a file that the generator passes on to the model (at least 100 code
  units, at least 20 lines and, in the seed script, at most 200) and an accepted object
  whose explanation can be coerced, the round assembles a puzzle with that rubric, and
  none when the coercion of the model's rubric throws.
\<close>

theorem grading_rubric_from_answer_or_model:
  "(\<forall>p. generateRound seedCopy B c (Content reply) = Some p \<longrightarrow>
      (\<exists>obj. extractJsonObject B (replyText reply) = Some obj \<and> accepted B obj
         \<and> specRubric B obj = Inr (gradingRubric p)))
   \<and> (reachesModel seedCopy c \<and> extractJsonObject B (replyText reply) = Some obj' \<and> accepted B obj'
        \<and> \<not> throws (specExplanation B obj') \<longrightarrow>
        map_option gradingRubric (generateRound seedCopy B c (Content reply))
          = (case specRubric B obj' of Inr t \<Rightarrow> Some t | Inl e \<Rightarrow> None))"
  using assembled_rubric rubric_is_produced by blast

theorem grading_rubric_from_answer_or_model_witness:
  "reachesModel False (example_candidate 20) \<and> reachesModel True (example_candidate 20)
   \<and> extractJsonObject int_builtins (replyText (Some scenarioA_reply)) = Some scenarioA_object
   \<and> accepted int_builtins scenarioA_object
   \<and> (\<exists>p. generateRound False int_builtins (example_candidate 20) (Content (Some scenarioA_reply)) = Some p
          \<and> gradingRubric p = lit ''Correct answer: X. Grade by exact match or rubric in explanation.''
          \<and> startLine (answerKey p) = num 2 \<and> endLine (answerKey p) = num 3)
   \<and> map_option gradingRubric
        (generateRound True int_builtins (example_candidate 20) (Content (Some rubric_text)))
       = Some (lit ''Any line of the loop.'')
   \<and> map_option gradingRubric
        (generateRound False int_builtins (example_candidate 20) (Content (Some numeric_rubric_text)))
       = Some (lit ''42'')
   \<and> map_option gradingRubric
        (generateRound True int_builtins (example_candidate 20) (Content (Some bare_text)))
       = Some []
   \<and> generateRound True int_builtins (example_candidate 20) (Content (Some throwing_text)) = None"
proof -
  let ?c = "example_candidate 20"
  have reach: "reachesModel False ?c" "reachesModel True ?c" by code_simp+
  have objA: "extractJsonObject int_builtins (replyText (Some scenarioA_reply)) = Some scenarioA_object"
    by code_simp
  have accA: "accepted int_builtins scenarioA_object" by code_simp
  have explA: "\<not> throws (specExplanation int_builtins scenarioA_object)"
    by (simp add: specExplanation_def scenarioA_object_def)
  have rubA: "specRubric int_builtins scenarioA_object
      = Inr (lit ''Correct answer: X. Grade by exact match or rubric in explanation.'')"
    by code_simp
  from grading_rubric_from_answer_or_model[of False int_builtins ?c "Some scenarioA_reply" scenarioA_object]
    reach(1) objA accA explA rubA
  have "map_option gradingRubric (generateRound False int_builtins ?c (Content (Some scenarioA_reply)))
      = Some (lit ''Correct answer: X. Grade by exact match or rubric in explanation.'')"
    by simp
  then obtain p where p: "generateRound False int_builtins ?c (Content (Some scenarioA_reply)) = Some p"
    and rub: "gradingRubric p = lit ''Correct answer: X. Grade by exact match or rubric in explanation.''"
    by auto
  have span: "map_option (\<lambda>p. (startLine (answerKey p), endLine (answerKey p)))
        (generateRound False int_builtins ?c (Content (Some scenarioA_reply))) = Some (num 2, num 3)"
    by code_simp
  with p have lines: "startLine (answerKey p) = num 2 \<and> endLine (answerKey p) = num 3" by simp
  have objR: "(case extractJsonObject int_builtins (replyText (Some rubric_text)) of None \<Rightarrow> False | Some obj \<Rightarrow>
      accepted int_builtins obj \<and> \<not> throws (specExplanation int_builtins obj)
      \<and> specRubric int_builtins obj = Inr (lit ''Any line of the loop.''))"
    by code_simp
  then obtain objR where "extractJsonObject int_builtins (replyText (Some rubric_text)) = Some objR"
      "accepted int_builtins objR" "\<not> throws (specExplanation int_builtins objR)"
      "specRubric int_builtins objR = Inr (lit ''Any line of the loop.'')"
    by (auto split: option.splits)
  with grading_rubric_from_answer_or_model[of True int_builtins ?c "Some rubric_text" objR] reach(2)
  have r: "map_option gradingRubric (generateRound True int_builtins ?c (Content (Some rubric_text)))
      = Some (lit ''Any line of the loop.'')"
    by simp
  have objN: "(case extractJsonObject int_builtins (replyText (Some numeric_rubric_text)) of None \<Rightarrow> False | Some obj \<Rightarrow>
      accepted int_builtins obj \<and> \<not> throws (specExplanation int_builtins obj)
      \<and> specRubric int_builtins obj = Inr (lit ''42''))"
    by code_simp
  then obtain objN where "extractJsonObject int_builtins (replyText (Some numeric_rubric_text)) = Some objN"
      "accepted int_builtins objN" "\<not> throws (specExplanation int_builtins objN)"
      "specRubric int_builtins objN = Inr (lit ''42'')"
    by (auto split: option.splits)
  with grading_rubric_from_answer_or_model[of False int_builtins ?c "Some numeric_rubric_text" objN] reach(1)
  have n: "map_option gradingRubric (generateRound False int_builtins ?c (Content (Some numeric_rubric_text)))
      = Some (lit ''42'')"
    by simp
  have objB: "(case extractJsonObject int_builtins (replyText (Some bare_text)) of None \<Rightarrow> False | Some obj \<Rightarrow>
      accepted int_builtins obj \<and> \<not> throws (specExplanation int_builtins obj)
      \<and> specRubric int_builtins obj = Inr [])"
    by code_simp
  then obtain objB where "extractJsonObject int_builtins (replyText (Some bare_text)) = Some objB"
      "accepted int_builtins objB" "\<not> throws (specExplanation int_builtins objB)"
      "specRubric int_builtins objB = Inr []"
    by (auto split: option.splits)
  with grading_rubric_from_answer_or_model[of True int_builtins ?c "Some bare_text" objB] reach(2)
  have b: "map_option gradingRubric (generateRound True int_builtins ?c (Content (Some bare_text))) = Some []"
    by simp
  have objT: "(case extractJsonObject int_builtins (replyText (Some throwing_text)) of None \<Rightarrow> False | Some obj \<Rightarrow>
      accepted int_builtins obj \<and> \<not> throws (specExplanation int_builtins obj)
      \<and> specRubric int_builtins obj = Inl TypeError)"
    by code_simp
  then obtain objT where "extractJsonObject int_builtins (replyText (Some throwing_text)) = Some objT"
      "accepted int_builtins objT" "\<not> throws (specExplanation int_builtins objT)"
      "specRubric int_builtins objT = Inl TypeError"
    by (auto split: option.splits)
  with grading_rubric_from_answer_or_model[of True int_builtins ?c "Some throwing_text" objT] reach(2)
  have t: "generateRound True int_builtins ?c (Content (Some throwing_text)) = None"
    by simp
  from reach objA accA p rub lines r n b t show ?thesis by blast
qed

text \<open>
  The scenario of the claim fails: over a file of ten lines the round assembles nothing,
  in the server's copy and in the seed script's; the file is skipped for its number of
  lines before the model is asked.
\<close>

theorem ten_line_file_is_skipped:
  "fileLines (example_candidate 10) = 10
   \<and> 100 \<le> length (content (cand_file (example_candidate 10)))
   \<and> extractJsonObject int_builtins (replyText (Some scenarioA_reply)) = Some scenarioA_object
   \<and> generateRound False int_builtins (example_candidate 10) (Content (Some scenarioA_reply)) = None
   \<and> generateRound True int_builtins (example_candidate 10) (Content (Some scenarioA_reply)) = None"
  by code_simp
section \<open>Scratch-reasoning blocks\<close>

lemma find_ci_None_tl:
  assumes "find_ci p (c # cs) = None"
  shows "find_ci p cs = None"
  using assms by (simp split: if_splits)

lemma find_ci_None_drop:
  assumes "find_ci p s = None"
  shows "find_ci p (drop k s) = None"
  using assms
proof (induction k arbitrary: s)
  case 0
  then show ?case by simp
next
  case (Suc k)
  show ?case
  proof (cases s)
    case Nil
    with Suc.prems show ?thesis by simp
  next
    case (Cons c cs)
    with Suc.prems have "find_ci p cs = None" using find_ci_None_tl by blast
    with Suc.IH Cons show ?thesis by simp
  qed
qed

lemma think_block_None:
  assumes "find_ci ''</think>'' s = None"
  shows "think_block prev s = None"
  using find_ci_None_drop[OF assms, of 7] by (simp add: think_block_def)

lemma gsub_no_match:
  assumes "\<And>prev k. m prev (drop k s) = None"
  shows "gsub m rep prev s = s"
  using assms
proof (induction s arbitrary: prev)
  case Nil
  from Nil[of prev 0] show ?case by simp
next
  case (Cons c cs)
  have "m prev (c # cs) = None" using Cons.prems[of prev 0] by simp
  moreover have "gsub m rep (Some c) cs = cs"
  proof (rule Cons.IH)
    fix prev' k
    show "m prev' (drop k cs) = None" using Cons.prems[of prev' "Suc k"] by simp
  qed
  ultimately show ?case by simp
qed

lemma strip_without_closing_marker:
  assumes "find_ci ''</think>'' s = None"
  shows "replace_all think_block (\<lambda>matched. []) s = s"
  unfolding replace_all_def
  by (rule gsub_no_match) (simp add: think_block_None find_ci_None_drop[OF assms])

text \<open>
  C8. For every text in which the closing marker \<open></think>\<close> occurs in no letter case,
  \<open>stripThinkTags\<close> returns the text trimmed and otherwise unchanged, also when an opening
  marker is present.
\<close>

theorem stripThinkTags_fails_open:
  assumes "find_ci ''</think>'' s = None"
  shows "stripThinkTags s = trim s"
  by (simp add: stripThinkTags_def strip_without_closing_marker[OF assms])

theorem stripThinkTags_fails_open_witness:
  "find_ci ''</think>'' '' <THINK>step one</thin  '' = None
   \<and> stripThinkTags '' <THINK>step one</thin  '' = ''<THINK>step one</thin''"
proof -
  have a: "find_ci ''</think>'' '' <THINK>step one</thin  '' = None"
    by (simp add: lower_def)
  have "trim '' <THINK>step one</thin  '' = ''<THINK>step one</thin''"
    by (simp add: trim_def is_space_def)
  with stripThinkTags_fails_open[OF a] a show ?thesis by simp
qed

section \<open>Grading results\<close>

lemma gradeSubmission_Some:
  assumes "gradeSubmission B puzzleCache completion submission = Some r"
  shows "\<exists>puzzle c expl.
           puzzleCache (sub_puzzleId submission) = Some puzzle
         \<and> completion = Content c
         \<and> truthy (parsedReply B c)
         \<and> String_js B (nullish (field (parsedReply B c) (lit ''explanation'')) (Some (JStr []))) = Inr expl
         \<and> r = \<lparr> correct = truthy (field (parsedReply B c) (lit ''correct'')),
                 result_insufficientContextAllowed =
                   (if insufficientContext submission
                    then truthy (field (parsedReply B c) (lit ''insufficientContextAllowed''))
                    else insufficientContextAllowed (answerKey puzzle)),
                 result_explanation = expl,
                 whatYouMissed =
                   (if insufficientContext submission then JNull
                    else (case nullish (field (parsedReply B c) (lit ''whatYouMissed'')) (Some JNull) of
                            None \<Rightarrow> JNull | Some w \<Rightarrow> w)),
                 expectedRange =
                   (if truthy (field (parsedReply B c) (lit ''correct'')) then None else Some (expectedSpan puzzle)) \<rparr>"
proof (cases "puzzleCache (sub_puzzleId submission)")
  case None
  with assms show ?thesis by (simp add: gradeSubmission_def)
next
  case (Some puzzle)
  show ?thesis
  proof (cases completion)
    case Throws
    with assms Some show ?thesis by (simp add: gradeSubmission_def Let_def split: if_splits)
  next
    case (Content c)
    show ?thesis
    proof (cases "insufficientContext submission")
      case True
      with assms Some Content show ?thesis
        by (auto simp: gradeSubmission_def Let_def parsedReply_def expectedSpan_def
              split: if_splits sum.splits)
    next
      case False
      with assms Some Content show ?thesis
        by (auto simp: gradeSubmission_def Let_def parsedReply_def expectedSpan_def
              split: if_splits sum.splits)
    qed
  qed
qed

text \<open>
  C3. Every result of \<open>gradeSubmission\<close>, in both modes, has no expected range exactly
  when its verdict is correct; when the verdict is incorrect the expected range is the
  line span of the puzzle's answer key.
\<close>

theorem expected_range_iff_incorrect:
  assumes "gradeSubmission B puzzleCache completion submission = Some r"
  shows "(expectedRange r = None \<longleftrightarrow> correct r)
       \<and> (\<exists>puzzle. puzzleCache (sub_puzzleId submission) = Some puzzle
              \<and> (\<not> correct r \<longrightarrow> expectedRange r = Some (expectedSpan puzzle)))"
proof -
  from gradeSubmission_Some[OF assms] obtain puzzle c expl where
    "puzzleCache (sub_puzzleId submission) = Some puzzle"
    "correct r = truthy (field (parsedReply B c) (lit ''correct''))"
    "expectedRange r = (if truthy (field (parsedReply B c) (lit ''correct'')) then None else Some (expectedSpan puzzle))"
    by auto
  then show ?thesis by auto
qed

theorem expected_range_iff_incorrect_witness:
  \<open>gradeSubmission int_builtins example_cache (Content (Some ''{"correct": false, "explanation": "more is needed"}'')) declining
     = Some \<lparr> correct = False, result_insufficientContextAllowed = False,
              result_explanation = lit ''more is needed'', whatYouMissed = JNull,
              expectedRange = Some \<lparr> startLine = num 4, endLine = num 9 \<rparr> \<rparr>
   \<and> example_cache (sub_puzzleId declining) = Some example_puzzle
   \<and> expectedSpan example_puzzle = \<lparr> startLine = num 4, endLine = num 9 \<rparr>\<close>
proof -
  have a: \<open>gradeSubmission int_builtins example_cache (Content (Some ''{"correct": false, "explanation": "more is needed"}'')) declining
     = Some \<lparr> correct = False, result_insufficientContextAllowed = False,
              result_explanation = lit ''more is needed'', whatYouMissed = JNull,
              expectedRange = Some \<lparr> startLine = num 4, endLine = num 9 \<rparr> \<rparr>\<close>
    by code_simp
  have b: "example_cache (sub_puzzleId declining) = Some example_puzzle"
    by (simp add: example_cache_def declining_def)
  from expected_range_iff_incorrect[OF a] b
  have "expectedSpan example_puzzle = \<lparr> startLine = num 4, endLine = num 9 \<rparr>" by simp
  with a b show ?thesis by simp
qed

text \<open>
  C5, as the program has it. In the range mode the result's flag is the puzzle's
  \<open>insufficientContextAllowed\<close>; in the insufficient-context mode it is the flag the
  model's reply carries (false when the reply has none), whatever the puzzle records.
\<close>

theorem result_flag_by_mode:
  assumes "gradeSubmission B puzzleCache completion submission = Some r"
  shows "\<exists>puzzle c. puzzleCache (sub_puzzleId submission) = Some puzzle \<and> completion = Content c
           \<and> result_insufficientContextAllowed r =
               (if insufficientContext submission
                then truthy (field (parsedReply B c) (lit ''insufficientContextAllowed''))
                else insufficientContextAllowed (answerKey puzzle))"
proof -
  from gradeSubmission_Some[OF assms] obtain puzzle c where
    "puzzleCache (sub_puzzleId submission) = Some puzzle" "completion = Content c"
    "result_insufficientContextAllowed r =
       (if insufficientContext submission
        then truthy (field (parsedReply B c) (lit ''insufficientContextAllowed''))
        else insufficientContextAllowed (answerKey puzzle))"
    by auto
  then show ?thesis by blast
qed

theorem result_flag_by_mode_witness:
  \<open>gradeSubmission int_builtins example_cache (Content (Some ''{"correct": true, "explanation": "ok"}'')) selecting
     = Some \<lparr> correct = True, result_insufficientContextAllowed = True,
              result_explanation = lit ''ok'', whatYouMissed = JNull, expectedRange = None \<rparr>
   \<and> example_cache (sub_puzzleId selecting) = Some example_puzzle
   \<and> \<not> insufficientContext selecting
   \<and> insufficientContextAllowed (answerKey example_puzzle)\<close>
proof -
  have a: \<open>gradeSubmission int_builtins example_cache (Content (Some ''{"correct": true, "explanation": "ok"}'')) selecting
     = Some \<lparr> correct = True, result_insufficientContextAllowed = True,
              result_explanation = lit ''ok'', whatYouMissed = JNull, expectedRange = None \<rparr>\<close>
    by code_simp
  have b: "example_cache (sub_puzzleId selecting) = Some example_puzzle"
    by (simp add: example_cache_def selecting_def)
  have c: "\<not> insufficientContext selecting" by (simp add: selecting_def)
  from result_flag_by_mode[OF a] b c have "insufficientContextAllowed (answerKey example_puzzle)" by simp
  with a b c show ?thesis by simp
qed

text \<open>
  The claim itself fails in the insufficient-context mode: the puzzle allows the answer,
  the model's reply carries no flag, and the result says false.
\<close>

theorem result_flag_not_the_puzzles:
  \<open>gradeSubmission int_builtins example_cache (Content (Some ''{"correct": true}'')) declining
     = Some \<lparr> correct = True, result_insufficientContextAllowed = False,
              result_explanation = [], whatYouMissed = JNull, expectedRange = None \<rparr>
   \<and> example_cache (sub_puzzleId declining) = Some example_puzzle
   \<and> insufficientContextAllowed (answerKey example_puzzle) = True\<close>
proof -
  have \<open>gradeSubmission int_builtins example_cache (Content (Some ''{"correct": true}'')) declining
     = Some \<lparr> correct = True, result_insufficientContextAllowed = False,
              result_explanation = [], whatYouMissed = JNull, expectedRange = None \<rparr>\<close>
    by code_simp
  then show ?thesis by (simp add: example_cache_def declining_def example_puzzle_def)
qed

text \<open>
  C6, as the program has it. In the insufficient-context mode \<open>whatYouMissed\<close> is always
  \<open>null\<close>. In the range mode it is the reply's \<open>whatYouMissed\<close>, \<open>null\<close> when the reply has
  none, whatever the verdict.
\<close>

theorem what_you_missed_by_mode:
  assumes "gradeSubmission B puzzleCache completion submission = Some r"
  shows "\<exists>c. completion = Content c
           \<and> whatYouMissed r =
               (if insufficientContext submission then JNull
                else (case field (parsedReply B c) (lit ''whatYouMissed'') of None \<Rightarrow> JNull | Some w \<Rightarrow> w))"
proof -
  from gradeSubmission_Some[OF assms] obtain c where c: "completion = Content c"
    and w: "whatYouMissed r =
       (if insufficientContext submission then JNull
        else (case nullish (field (parsedReply B c) (lit ''whatYouMissed'')) (Some JNull) of
                None \<Rightarrow> JNull | Some w \<Rightarrow> w))"
    by auto
  have "(case nullish v (Some JNull) of None \<Rightarrow> JNull | Some w \<Rightarrow> w) = (case v of None \<Rightarrow> JNull | Some w \<Rightarrow> w)"
    for v
  proof (cases v)
    case None
    then show ?thesis by simp
  next
    case (Some x)
    then show ?thesis by (cases x) simp_all
  qed
  with c w show ?thesis by simp
qed

theorem what_you_missed_by_mode_witness:
  \<open>gradeSubmission int_builtins example_cache (Content (Some ''{"correct": false, "whatYouMissed": "line 9"}'')) declining
     = Some (the (gradeSubmission int_builtins example_cache
                   (Content (Some ''{"correct": false, "whatYouMissed": "line 9"}'')) declining))
   \<and> insufficientContext declining
   \<and> whatYouMissed (the (gradeSubmission int_builtins example_cache
                           (Content (Some ''{"correct": false, "whatYouMissed": "line 9"}'')) declining)) = JNull\<close>
proof -
  have \<open>gradeSubmission int_builtins example_cache (Content (Some ''{"correct": false, "whatYouMissed": "line 9"}'')) declining
     = Some \<lparr> correct = False, result_insufficientContextAllowed = False,
              result_explanation = [], whatYouMissed = JStr (lit ''line 9''),
              expectedRange = Some \<lparr> startLine = num 4, endLine = num 9 \<rparr> \<rparr>
      \<or> gradeSubmission int_builtins example_cache (Content (Some ''{"correct": false, "whatYouMissed": "line 9"}'')) declining \<noteq> None\<close>
    by code_simp
  then have a: \<open>gradeSubmission int_builtins example_cache (Content (Some ''{"correct": false, "whatYouMissed": "line 9"}'')) declining
     = Some (the (gradeSubmission int_builtins example_cache
                   (Content (Some ''{"correct": false, "whatYouMissed": "line 9"}'')) declining))\<close>
    by auto
  have b: "insufficientContext declining" by (simp add: declining_def)
  from what_you_missed_by_mode[OF a] b
  have \<open>whatYouMissed (the (gradeSubmission int_builtins example_cache
                           (Content (Some ''{"correct": false, "whatYouMissed": "line 9"}'')) declining)) = JNull\<close>
    by auto
  with a b show ?thesis by simp
qed

text \<open>The claim itself fails in the range mode: a correct verdict with a remark.\<close>

theorem correct_with_what_you_missed:
  \<open>gradeSubmission int_builtins example_cache
      (Content (Some ''{"correct": true, "explanation": "yes", "whatYouMissed": "the loop"}'')) selecting
     = Some \<lparr> correct = True, result_insufficientContextAllowed = True,
              result_explanation = lit ''yes'', whatYouMissed = JStr (lit ''the loop''), expectedRange = None \<rparr>\<close>
  by code_simp




section \<open>The gate of the grading boundary\<close>

lemma andThen_Inr:
  "andThen r f = Inr y \<longleftrightarrow> (\<exists>x. r = Inr x \<and> f x = Inr y)"
  by (cases r) (simp_all add: andThen_def)

lemma validateSubmission_accepts_gated:
  assumes "validateSubmission body = Inr d"
  shows "insufficientContext d \<or> (\<exists>x xs. selectedRanges d = Some (x # xs))"
  using assms
  by (auto simp: validateSubmission_def andThen_Inr neq_Nil_conv split: if_splits)

subsection \<open>The checks, field by field\<close>
















section \<open>A second pass of the sanitizer\<close>

text \<open>
  The six key-shaped patterns stand between two word boundaries, and what they take
  begins and ends with a word code unit. The marker \<open>[REDACTED]\<close> begins and ends with
  a bracket, so a replacement by the marker neither joins two pieces of a key nor opens
  a place where one of these patterns begins to match: once the six have run, none of
  them matches any more. The generic pattern has no boundary, and this fails for it.
\<close>

subsection \<open>Where a key-shaped pattern matches\<close>

lemma run_chars:
  assumes "j < run_of pre cls s"
  shows "length pre + j < length s \<and> cls (s ! (length pre + j))"
proof -
  let ?d = "drop (length pre) s"
  from assms have j: "j < length (takeWhile cls ?d)" by (simp add: run_of_def)
  then have "takeWhile cls ?d ! j \<in> set (takeWhile cls ?d)" by simp
  then have "cls (takeWhile cls ?d ! j)" by (rule set_takeWhileD[THEN conjunct2])
  moreover have "takeWhile cls ?d ! j = ?d ! j" using j by (rule takeWhile_nth)
  moreover have jd: "j < length ?d" using j length_takeWhile_le[of cls ?d] by linarith
  then have "length pre + j < length s" by simp
  moreover from this have "?d ! j = s ! (length pre + j)" by simp
  ultimately show ?thesis by simp
qed

lemma run_stops:
  assumes "length pre + run_of pre cls s < length s"
  shows "\<not> cls (s ! (length pre + run_of pre cls s))"
proof -
  let ?d = "drop (length pre) s"
  from assms have "length (takeWhile cls ?d) < length ?d" by (simp add: run_of_def)
  then have "\<not> cls (?d ! length (takeWhile cls ?d))" by (rule nth_length_takeWhile)
  moreover have "?d ! length (takeWhile cls ?d) = s ! (length pre + run_of pre cls s)"
    using assms by (simp add: run_of_def)
  ultimately show ?thesis by simp
qed

lemma run_within:
  assumes "take (length pre) s = pre"
  shows "length pre + run_of pre cls s \<le> length s"
proof -
  from assms have "length (take (length pre) s) = length pre" by simp
  then have "length pre \<le> length s" by simp
  moreover have "run_of pre cls s \<le> length s - length pre"
    using length_takeWhile_le[of cls "drop (length pre) s"] by (simp add: run_of_def)
  ultimately show ?thesis by linarith
qed

lemma key_text_shape:
  assumes shape: "key_shape pre cls lo" and t: "key_text pre cls lo hi t"
  shows "t \<noteq> [] \<and> is_word (hd t) \<and> is_word (last t) \<and> hd t \<noteq> CHR ''R'' \<and> CHR ''['' \<notin> set t"
proof -
  let ?L = "length pre"
  from shape have pre: "pre \<noteq> []" "is_word (hd pre)" "hd pre \<noteq> CHR ''R''" "CHR ''['' \<notin> set pre"
    and cls: "\<And>c. cls c \<Longrightarrow> is_word c" and lo: "1 \<le> lo"
    by (simp_all add: key_shape_def)
  from t have len: "?L + lo \<le> length t" and tk: "take ?L t = pre"
    and rest: "list_all cls (drop ?L t)"
    by (simp_all add: key_text_def)
  from pre(1) len have ne: "t \<noteq> []" by auto
  have split: "t = pre @ drop ?L t" using tk by (metis append_take_drop_id)
  have hd: "hd t = hd pre" using split pre(1) by (metis hd_append2)
  have dne: "drop ?L t \<noteq> []" using len lo by simp
  then have "last t = last (drop ?L t)" using split by (metis last_appendR)
  moreover have "last (drop ?L t) \<in> set (drop ?L t)" using dne by (rule last_in_set)
  ultimately have "cls (last t)" using rest by (simp add: list_all_iff)
  then have last: "is_word (last t)" by (rule cls)
  have "\<not> is_word CHR ''[''" by code_simp
  then have "\<not> cls CHR ''[''" using cls by blast
  then have "CHR ''['' \<notin> set (drop ?L t)" using rest by (auto simp: list_all_iff)
  then have "CHR ''['' \<notin> set t" using pre(4) split by (metis Un_iff set_append)
  with ne hd pre last show ?thesis by simp
qed

lemma token_re_unfold:
  "token_re pre cls lo hi prev s =
    (if boundary prev (case s of [] \<Rightarrow> None | c # cs \<Rightarrow> Some c) \<and> take (length pre) s = pre
     then map_option (\<lambda>k. length pre + k)
            (find (\<lambda>k. boundary_at s (length pre + k))
               (rev [lo ..< Suc (case hi of None \<Rightarrow> run_of pre cls s | Some h \<Rightarrow> min h (run_of pre cls s))]))
     else None)"
  unfolding token_re_def run_of_def Let_def by (rule refl)

lemma inside_run_no_boundary:
  assumes cls: "\<And>c. cls c \<Longrightarrow> is_word c" and k: "1 \<le> k" "k < run_of pre cls s"
  shows "\<not> boundary_at s (length pre + k)"
proof -
  from k have "k - 1 < run_of pre cls s" by simp
  from run_chars[OF this] k(1) have a: "is_word (s ! (length pre + k - 1))"
    using cls by simp
  from run_chars[OF k(2)] have b: "length pre + k < length s" "is_word (s ! (length pre + k))"
    using cls by simp_all
  show ?thesis using a b by (simp add: boundary_at_def boundary_def)
qed

lemma end_of_run_boundary:
  assumes cls: "\<And>c. cls c \<Longrightarrow> is_word c" and k: "1 \<le> run_of pre cls s"
  shows "boundary_at s (length pre + run_of pre cls s) =
     (length pre + run_of pre cls s < length s \<longrightarrow> \<not> is_word (s ! (length pre + run_of pre cls s)))"
proof -
  from k have "run_of pre cls s - 1 < run_of pre cls s" by simp
  from run_chars[OF this] k have a: "is_word (s ! (length pre + run_of pre cls s - 1))"
    using cls by simp
  show ?thesis using a by (simp add: boundary_at_def boundary_def)
qed

lemma find_Some_mem: "find P xs = Some x \<Longrightarrow> P x \<and> x \<in> set xs"
  by (induction xs) (auto split: if_splits)

lemma token_re_Some_D:
  assumes shape: "key_shape pre cls lo" and m: "token_re pre cls lo hi prev s = Some n"
  shows "n \<le> length s \<and> key_text pre cls lo hi (take n s) \<and> \<not> word_at prev
     \<and> (n < length s \<longrightarrow> \<not> is_word (s ! n))"
proof -
  let ?L = "length pre" and ?run = "run_of pre cls s"
  let ?most = "case hi of None \<Rightarrow> ?run | Some h \<Rightarrow> min h ?run"
  from shape have pre: "pre \<noteq> []" "is_word (hd pre)"
    and cls: "\<And>c. cls c \<Longrightarrow> is_word c" and lo: "1 \<le> lo"
    by (simp_all add: key_shape_def)
  from m have b: "boundary prev (case s of [] \<Rightarrow> None | c # cs \<Rightarrow> Some c)" and tk: "take ?L s = pre"
    and f: "map_option (\<lambda>k. ?L + k) (find (\<lambda>k. boundary_at s (?L + k)) (rev [lo ..< Suc ?most])) = Some n"
    by (simp_all add: token_re_unfold split: if_splits)
  from f obtain k where fk: "find (\<lambda>k. boundary_at s (?L + k)) (rev [lo ..< Suc ?most]) = Some k"
    and n: "n = ?L + k" by auto
  from fk have bk: "boundary_at s (?L + k)" and "k \<in> set (rev [lo ..< Suc ?most])"
    by (auto dest: find_Some_mem)
  then have k: "lo \<le> k" "k \<le> ?most" by auto
  have most: "?most \<le> ?run" by (cases hi) simp_all
  have "\<not> k < ?run" using inside_run_no_boundary[where cls = cls and k = k and pre = pre and s = s, OF cls] bk k(1) lo by auto
  with k(2) most have keq: "k = ?run" by linarith
  with k(2) have hi: "case hi of None \<Rightarrow> True | Some h \<Rightarrow> ?run \<le> h" by (cases hi) simp_all
  from run_within[OF tk] n keq have nlen: "n \<le> length s" by simp
  from tk pre(1) obtain c cs where s: "s = c # cs" by (cases s) auto
  with tk pre(1) have "hd s = hd pre" by (metis hd_take length_greater_0_conv)
  with b s pre(2) have np: "\<not> word_at prev" by (simp add: boundary_def)
  have "drop ?L (take n s) = take ?run (drop ?L s)" using n keq by (simp add: drop_take)
  also have "\<dots> = takeWhile cls (drop ?L s)"
    unfolding run_of_def by (rule takeWhile_eq_take[symmetric])
  finally have "list_all cls (drop ?L (take n s))"
    by (auto simp: list_all_iff dest: set_takeWhileD)
  moreover have "take ?L (take n s) = pre" using tk n by (simp add: min_def)
  moreover have "length (take n s) = ?L + ?run" using nlen n keq by simp
  ultimately have kt: "key_text pre cls lo hi (take n s)"
    using k(1) keq hi by (cases hi) (simp_all add: key_text_def)
  from k(1) lo keq have "1 \<le> ?run" by simp
  from end_of_run_boundary[OF cls this] bk keq n
  have "n < length s \<longrightarrow> \<not> is_word (s ! n)" by simp
  with nlen kt np show ?thesis by simp
qed

lemma find_first: "P x \<Longrightarrow> find P (x # xs) = Some x"
  by simp

lemma token_re_Some_I:
  assumes shape: "key_shape pre cls lo"
    and nlen: "n \<le> length s" and kt: "key_text pre cls lo hi (take n s)"
    and np: "\<not> word_at prev" and nx: "n < length s \<longrightarrow> \<not> is_word (s ! n)"
  shows "token_re pre cls lo hi prev s = Some n"
proof -
  let ?L = "length pre" and ?run = "run_of pre cls s"
  let ?most = "case hi of None \<Rightarrow> ?run | Some h \<Rightarrow> min h ?run"
  from shape have pre: "pre \<noteq> []" "is_word (hd pre)"
    and cls: "\<And>c. cls c \<Longrightarrow> is_word c" and lo: "1 \<le> lo"
    by (simp_all add: key_shape_def)
  from nlen have ln: "length (take n s) = n" by simp
  from kt have len: "?L + lo \<le> n"
    and hi: "case hi of None \<Rightarrow> True | Some h \<Rightarrow> n \<le> ?L + h"
    and tk': "take ?L (take n s) = pre" and rest: "list_all cls (drop ?L (take n s))"
    unfolding key_text_def ln by blast+
  from tk' len have tk: "take ?L s = pre" by (simp add: min_def)
  from tk pre(1) obtain c cs where s: "s = c # cs" by (cases s) auto
  with tk pre(1) have "hd s = hd pre" by (metis hd_take length_greater_0_conv)
  with s pre(2) np have b: "boundary prev (case s of [] \<Rightarrow> None | c # cs \<Rightarrow> Some c)"
    by (simp add: boundary_def)
  have dt: "drop ?L (take n s) = take (n - ?L) (drop ?L s)" by (simp add: drop_take)
  have "takeWhile cls (drop ?L s) = take (n - ?L) (drop ?L s)"
  proof (rule takeWhile_eq_take_P_nth)
    fix i assume i: "i < n - ?L" "i < length (drop ?L s)"
    then have "take (n - ?L) (drop ?L s) ! i \<in> set (drop ?L (take n s))"
      using dt by (metis length_take min_less_iff_conj nth_mem)
    then have "cls (take (n - ?L) (drop ?L s) ! i)" using rest by (simp add: list_all_iff)
    then show "cls (drop ?L s ! i)" using i by simp
  next
    assume "n - ?L < length (drop ?L s)"
    then have "n < length s" and "drop ?L s ! (n - ?L) = s ! n" using len by simp_all
    with nx cls show "\<not> cls (drop ?L s ! (n - ?L))" by auto
  qed
  then have run: "?run = n - ?L" using nlen by (simp add: run_of_def)
  with len have n: "n = ?L + ?run" by simp
  from run hi len have most: "?most = ?run" by (cases hi) simp_all
  from run len have lor: "lo \<le> ?run" by simp
  with lo have "1 \<le> ?run" by simp
  from end_of_run_boundary[where cls = cls and pre = pre and s = s, OF cls this] nx n
  have bd: "boundary_at s (?L + ?run)" by simp
  have "rev [lo ..< Suc ?run] = ?run # rev [lo ..< ?run]" using lor by simp
  then have "find (\<lambda>k. boundary_at s (?L + k)) (rev [lo ..< Suc ?most]) = Some ?run"
    using bd most by (simp only: find_first)
  then show ?thesis using b tk n by (simp only: token_re_unfold) simp
qed

lemma token_re_key_like:
  assumes "key_shape pre cls lo"
  shows "key_like (key_text pre cls lo hi) (token_re pre cls lo hi)"
  unfolding key_like_def
  using token_re_Some_D[OF assms] token_re_Some_I[OF assms] key_text_shape[OF assms]
  by blast

subsection \<open>What a replacement by the marker leaves in place\<close>

lemma REDACT_head: "REDACT = CHR ''['' # ''REDACTED]''"
  by (simp add: REDACT_def)

lemma gsub_copy:
  assumes "k \<le> length (gsub m (\<lambda>matched. REDACT) prev s)"
    and "CHR ''['' \<notin> set (take k (gsub m (\<lambda>matched. REDACT) prev s))"
  shows "k \<le> length s \<and> take k (gsub m (\<lambda>matched. REDACT) prev s) = take k s
     \<and> drop k (gsub m (\<lambda>matched. REDACT) prev s)
         = gsub m (\<lambda>matched. REDACT) (if k = 0 then prev else Some (s ! (k - 1))) (drop k s)"
  using assms
proof (induction s arbitrary: prev k)
  case Nil
  then show ?case
    by (cases k; cases "m prev []") (simp_all add: REDACT_head)
next
  case (Cons c cs)
  show ?case
  proof (cases k)
    case 0
    then show ?thesis by simp
  next
    case (Suc k')
    show ?thesis
    proof (cases "m prev (c # cs)")
      case None
      then have out: "gsub m (\<lambda>matched. REDACT) prev (c # cs) = c # gsub m (\<lambda>matched. REDACT) (Some c) cs"
        by simp
      from Cons.prems Suc have "k' \<le> length (gsub m (\<lambda>matched. REDACT) (Some c) cs)"
        and "CHR ''['' \<notin> set (take k' (gsub m (\<lambda>matched. REDACT) (Some c) cs))"
        unfolding out by simp_all
      from Cons.IH[OF this] show ?thesis
        unfolding out Suc by (cases k') simp_all
    next
      case (Some n)
      then have "\<exists>rest. gsub m (\<lambda>matched. REDACT) prev (c # cs) = CHR ''['' # rest"
        by (simp add: REDACT_head)
      then obtain rest where "gsub m (\<lambda>matched. REDACT) prev (c # cs) = CHR ''['' # rest" ..
      with Cons.prems(2) Suc show ?thesis by simp
    qed
  qed
qed

lemma key_like_D:
  assumes "key_like P m" and "m prev s = Some n"
  shows "n \<le> length s" and "P (take n s)" and "\<not> word_at prev"
    and "n < length s \<longrightarrow> \<not> is_word (s ! n)"
    and "1 \<le> n" and "s \<noteq> []" and "is_word (hd s)" and "hd s \<noteq> CHR ''R''"
    and "CHR ''['' \<notin> set (take n s)" and "is_word (s ! (n - 1))"
proof -
  from assms have a: "n \<le> length s \<and> P (take n s) \<and> \<not> word_at prev
      \<and> (n < length s \<longrightarrow> \<not> is_word (s ! n))"
    unfolding key_like_def by blast
  then show "n \<le> length s" "P (take n s)" "\<not> word_at prev"
    "n < length s \<longrightarrow> \<not> is_word (s ! n)" by simp_all
  from assms(1) a have t: "take n s \<noteq> []" "is_word (hd (take n s))" "is_word (last (take n s))"
    "hd (take n s) \<noteq> CHR ''R''" "CHR ''['' \<notin> set (take n s)"
    unfolding key_like_def by blast+
  from t(1) show n: "1 \<le> n" and s: "s \<noteq> []" by (cases n; auto)+
  from n have "hd (take n s) = hd s" by (cases n; cases s) simp_all
  with t show "is_word (hd s)" "hd s \<noteq> CHR ''R''" "CHR ''['' \<notin> set (take n s)" by simp_all
  from a n have "last (take n s) = s ! (n - 1)"
    using t(1) by (auto simp: last_conv_nth min_def)
  with t(3) show "is_word (s ! (n - 1))" by simp
qed

lemma key_like_I:
  assumes "key_like P m" and "n \<le> length s" and "P (take n s)" and "\<not> word_at prev"
    and "n < length s \<longrightarrow> \<not> is_word (s ! n)"
  shows "m prev s = Some n"
  using assms unfolding key_like_def by blast

lemma key_like_None:
  assumes "key_like P m"
  shows "m prev [] = None"
    and "\<not> is_word c \<Longrightarrow> m prev (c # cs) = None"
    and "m prev (CHR ''R'' # cs) = None"
    and "is_word p \<Longrightarrow> m (Some p) s = None"
proof -
  show "m prev [] = None"
    using key_like_D(6)[OF assms, of prev "[]"] by (cases "m prev []") auto
  show "\<not> is_word c \<Longrightarrow> m prev (c # cs) = None"
    using key_like_D(7)[OF assms, of prev "c # cs"] by (cases "m prev (c # cs)") auto
  show "m prev (CHR ''R'' # cs) = None"
    using key_like_D(8)[OF assms, of prev "CHR ''R'' # cs"]
    by (cases "m prev (CHR ''R'' # cs)") auto
  show "is_word p \<Longrightarrow> m (Some p) s = None"
    using key_like_D(3)[OF assms, of "Some p" s] by (cases "m (Some p) s") auto
qed

lemma marker_words:
  "\<not> is_word CHR ''[''" "\<not> is_word CHR '']''" "is_word CHR ''R''" "is_word CHR ''E''"
  "is_word CHR ''D''" "is_word CHR ''A''" "is_word CHR ''C''" "is_word CHR ''T''"
  by code_simp+

lemma nomatch_marker:
  assumes "key_like P m" and "nomatch m (Some CHR '']'') rest"
  shows "nomatch m prev (REDACT @ rest)"
  using assms(2) by (simp add: REDACT_def key_like_None[OF assms(1)] marker_words)

lemma fails_with_here:
  "fails_with m m' prev s \<Longrightarrow> m prev s = None \<Longrightarrow> m' prev s = None"
  by (cases s) simp_all

lemma fails_with_drop:
  "fails_with m m' prev s \<Longrightarrow> k \<le> length s
    \<Longrightarrow> fails_with m m' (if k = 0 then prev else Some (s ! (k - 1))) (drop k s)"
proof (induction s arbitrary: prev k)
  case Nil
  then show ?case by simp
next
  case (Cons c cs)
  show ?case
  proof (cases k)
    case 0
    with Cons.prems show ?thesis by simp
  next
    case (Suc k')
    with Cons.prems have "fails_with m m' (Some c) cs" "k' \<le> length cs" by simp_all
    from Cons.IH[OF this] show ?thesis unfolding Suc by (cases k') simp_all
  qed
qed

lemma nomatch_fails_with: "nomatch m' prev s \<Longrightarrow> fails_with m m' prev s"
  by (induction s arbitrary: prev) simp_all

lemma fails_with_refl: "fails_with m m prev s"
  by (induction s arbitrary: prev) simp_all

lemma nomatch_gsub: "nomatch m prev s \<Longrightarrow> gsub m rep prev s = s"
  by (induction s arbitrary: prev) simp_all

lemma no_new_match_at_copy:
  assumes m: "key_like P m" and m': "key_like P' m'"
    and none: "m prev s = None" and none': "m' prev s = None"
    and ctx: "word_at prev' = word_at prev \<or> s = [] \<or> \<not> is_word (hd s)"
  shows "m' prev' (gsub m (\<lambda>matched. REDACT) prev s) = None"
proof (cases "m' prev' (gsub m (\<lambda>matched. REDACT) prev s)")
  case None
  then show ?thesis .
next
  case (Some n)
  let ?out = "gsub m (\<lambda>matched. REDACT) prev s"
  note d = key_like_D[OF m' Some]
  from d(5) have n0: "n \<noteq> 0" by simp
  from gsub_copy[OF d(1) d(9)] n0 have nlen: "n \<le> length s" and tk: "take n ?out = take n s"
    and dr: "drop n ?out = gsub m (\<lambda>matched. REDACT) (Some (s ! (n - 1))) (drop n s)"
    by simp_all
  from nlen n0 have sne: "s \<noteq> []" by auto
  from tk n0 sne d(6) have "hd ?out = hd s" by (metis hd_take not_gr_zero)
  with d(7) sne ctx d(3) have np: "\<not> word_at prev" by simp
  from tk n0 have "?out ! (n - 1) = s ! (n - 1)"
    by (metis diff_less nth_take not_gr_zero zero_less_one)
  with d(10) have "is_word (s ! (n - 1))" by simp
  then have stop: "m (Some (s ! (n - 1))) (drop n s) = None" by (rule key_like_None(4)[OF m])
  have nx: "n < length s \<longrightarrow> \<not> is_word (s ! n)"
  proof
    assume lt: "n < length s"
    then have "drop n s = s ! n # drop (Suc n) s" by (rule Cons_nth_drop_Suc[symmetric])
    with dr stop have "drop n ?out = s ! n # gsub m (\<lambda>matched. REDACT) (Some (s ! n)) (drop (Suc n) s)"
      by simp
    then have "n < length ?out \<and> ?out ! n = s ! n"
      by (metis drop_eq_Nil hd_drop_conv_nth list.distinct(1) list.sel(1) not_le)
    with d(4) show "\<not> is_word (s ! n)" by simp
  qed
  from d(2) tk have "P' (take n s)" by simp
  from key_like_I[OF m' nlen this np nx] have "m' prev s = Some n" .
  with none' show ?thesis by simp
qed

lemma gsub_keeps_nomatch:
  assumes m: "key_like P m" and m': "key_like P' m'"
  shows "fails_with m m' prev s \<Longrightarrow> word_at prev' = word_at prev \<or> s = [] \<or> \<not> is_word (hd s)
    \<Longrightarrow> nomatch m' prev' (gsub m (\<lambda>matched. REDACT) prev s)"
proof (induction s arbitrary: prev prev' rule: length_induct)
  case (1 s)
  note IH = "1.IH"[rule_format] and fw = "1.prems"(1) and ctx = "1.prems"(2)
  show ?case
  proof (cases s)
    case Nil
    then show ?thesis by (simp add: key_like_None(1)[OF m] key_like_None(1)[OF m'])
  next
    case (Cons c cs)
    show ?thesis
    proof (cases "m prev s")
      case None
      with fw have none': "m' prev s = None" by (rule fails_with_here)
      from no_new_match_at_copy[OF m m' None none' ctx]
      have here: "m' prev' (gsub m (\<lambda>matched. REDACT) prev s) = None" .
      from None Cons have out: "gsub m (\<lambda>matched. REDACT) prev s = c # gsub m (\<lambda>matched. REDACT) (Some c) cs"
        by simp
      from fw Cons have "fails_with m m' (Some c) cs" by simp
      then have "nomatch m' (Some c) (gsub m (\<lambda>matched. REDACT) (Some c) cs)"
        by (rule IH[rotated]) (simp_all add: Cons)
      with here show ?thesis unfolding out by simp
    next
      case (Some n)
      note d = key_like_D[OF m Some]
      from d(5) have n0: "n \<noteq> 0" by simp
      from Some Cons n0 have out: "gsub m (\<lambda>matched. REDACT) prev s
          = REDACT @ gsub m (\<lambda>matched. REDACT) (Some (last (take n s))) (drop n s)"
        by simp
      from d(1) n0 Cons have lst: "last (take n s) = s ! (n - 1)"
        by (auto simp: last_conv_nth min_def)
      from fails_with_drop[OF fw d(1)] n0 lst
      have fw': "fails_with m m' (Some (last (take n s))) (drop n s)" by simp
      have shorter: "length (drop n s) < length s" using n0 Cons by simp
      have ctx': "word_at (Some CHR '']'') = word_at (Some (last (take n s)))
          \<or> drop n s = [] \<or> \<not> is_word (hd (drop n s))"
      proof (cases "n < length s")
        case True
        with d(4) show ?thesis by (simp add: hd_drop_conv_nth)
      next
        case False
        then show ?thesis by simp
      qed
      from IH[OF shorter fw' ctx']
      have "nomatch m' (Some CHR '']'') (gsub m (\<lambda>matched. REDACT) (Some (last (take n s))) (drop n s))" .
      then show ?thesis unfolding out by (rule nomatch_marker[OF m'])
    qed
  qed
qed

subsection \<open>The six key-shaped patterns, one after the other\<close>

lemma class_words:
  "is_upper_digit c \<Longrightarrow> is_word c" "is_alnum c \<Longrightarrow> is_word c"
  by (auto simp: is_upper_digit_def is_word_def is_alnum_def)

lemma prefix_heads:
  "is_word CHR ''A''" "is_word CHR ''g''" "is_word CHR ''s''"
  by code_simp+

lemma KEY_PATTERNS_key_like: "\<forall>m \<in> set KEY_PATTERNS. \<exists>P. key_like P m"
proof -
  have "key_shape ''AKIA'' is_upper_digit 16" "key_shape ''ghp_'' is_alnum 36"
    "key_shape ''gho_'' is_alnum 36" "key_shape ''github_pat_'' is_word 22"
    "key_shape ''sk-'' is_alnum 20" "key_shape ''gsk_'' is_alnum 20"
    by (simp_all add: key_shape_def class_words prefix_heads)
  then show ?thesis
    unfolding KEY_PATTERNS_def SECRET_PATTERNS_def
    by (auto intro: token_re_key_like)
qed

lemma redact_each_keeps_nomatch:
  assumes "\<forall>m \<in> set ms. \<exists>P. key_like P m" and "\<forall>m \<in> set seen. \<exists>P. key_like P m"
    and "\<forall>m \<in> set seen. nomatch m None s"
  shows "\<forall>m \<in> set (seen @ ms).
    nomatch m None (foldl (\<lambda>out re. replace_all re (\<lambda>matched. REDACT) out) s ms)"
  using assms
proof (induction ms arbitrary: s seen)
  case Nil
  then show ?case by simp
next
  case (Cons m ms)
  from Cons.prems(1) obtain P where m: "key_like P m" by auto
  let ?s = "replace_all m (\<lambda>matched. REDACT) s"
  have a: "\<forall>m' \<in> set (seen @ [m]). nomatch m' None ?s"
  proof
    fix m' assume "m' \<in> set (seen @ [m])"
    then consider "m' \<in> set seen" | "m' = m" by auto
    then show "nomatch m' None ?s"
    proof cases
      case 1
      with Cons.prems(2) obtain P' where m': "key_like P' m'" by auto
      from 1 Cons.prems(3) have "nomatch m' None s" by simp
      then have "fails_with m m' None s" by (rule nomatch_fails_with)
      from gsub_keeps_nomatch[OF m m' this, of None] show ?thesis
        by (simp add: replace_all_def)
    next
      case 2
      from gsub_keeps_nomatch[OF m m fails_with_refl, of None None s] show ?thesis
        by (simp add: replace_all_def 2)
    qed
  qed
  have b: "\<forall>m' \<in> set (seen @ [m]). \<exists>P. key_like P m'"
    using Cons.prems(1,2) by auto
  have c: "\<forall>m' \<in> set ms. \<exists>P. key_like P m'" using Cons.prems(1) by simp
  from Cons.IH[OF c b a] show ?case by simp
qed

lemma redact_each_unchanged:
  "\<forall>m \<in> set ms. nomatch m None s
    \<Longrightarrow> foldl (\<lambda>out re. replace_all re (\<lambda>matched. REDACT) out) s ms = s"
  by (induction ms) (simp_all add: replace_all_def nomatch_gsub)

lemma redactKeys_idempotent: "redactKeys (redactKeys s) = redactKeys s"
proof -
  from redact_each_keeps_nomatch[OF KEY_PATTERNS_key_like, of "[]" s]
  have "\<forall>m \<in> set KEY_PATTERNS. nomatch m None (redactKeys s)"
    by (simp add: redactKeys_def)
  from redact_each_unchanged[OF this] show ?thesis by (simp add: redactKeys_def)
qed

lemma sanitizeContent_after_keys:
  "sanitizeContent s = replace_all generic_hex (\<lambda>matched. REDACT) (redactKeys s)"
  by (simp add: sanitizeContent_def redactKeys_def KEY_PATTERNS_def SECRET_PATTERNS_def)


subsection \<open>The generic pattern after its own pass\<close>

lemma hex_run_D:
  assumes "hex_run q s = Some n"
  shows "q + 32 \<le> n" and "n \<le> length s" and "n \<le> q + 33"
    and "list_all is_hex (take 32 (drop q s))"
    and "n = q + 33 \<longrightarrow> is_quote (s ! (q + 32))"
proof -
  from assms have len: "32 \<le> length (drop q s)" and hex: "list_all is_hex (take 32 (drop q s))"
    and n: "n = q + 32 + (case drop (q + 32) s of [] \<Rightarrow> 0 | c # cs \<Rightarrow> if is_quote c then 1 else 0)"
    by (auto simp: hex_run_def split: if_splits)
  show "list_all is_hex (take 32 (drop q s))" by (rule hex)
  show "q + 32 \<le> n" using n by simp
  show "n \<le> q + 33" using n by (simp split: list.splits)
  show "n \<le> length s"
  proof (cases "drop (q + 32) s")
    case Nil
    with n len show ?thesis by simp
  next
    case (Cons c cs)
    then have "q + 32 < length s" by (metis drop_eq_Nil list.distinct(1) not_le)
    with n Cons show ?thesis by simp
  qed
  show "n = q + 33 \<longrightarrow> is_quote (s ! (q + 32))"
  proof
    assume "n = q + 33"
    with n obtain c cs where c: "drop (q + 32) s = c # cs" "is_quote c"
      by (auto split: list.splits if_splits)
    then have "q + 32 < length s" by (metis drop_eq_Nil list.distinct(1) not_le)
    then have "s ! (q + 32) = hd (drop (q + 32) s)" by (simp add: hd_drop_conv_nth)
    with c show "is_quote (s ! (q + 32))" by simp
  qed
qed

lemma generic_hex_cases:
  assumes "generic_hex prev s = Some n"
  obtains (quoted) "s \<noteq> []" "is_quote (hd s)" "hex_run 1 s = Some n"
  | (bare) "hex_run 0 s = Some n"
  using assms by (cases s) (auto simp: generic_hex_def split: option.splits if_splits)

lemma hex_quote_no_bracket:
  "is_hex c \<Longrightarrow> c \<noteq> CHR ''[''" "is_quote c \<Longrightarrow> c \<noteq> CHR ''[''"
  by (auto simp: is_hex_def is_digit_def is_quote_def)

lemma hex_run_no_bracket:
  assumes "hex_run q s = Some n" and "i < n" and "q \<le> i"
  shows "s ! i \<noteq> CHR ''[''"
proof (cases "i < q + 32")
  case True
  note d = hex_run_D[OF assms(1)]
  from True assms(3) have "i - q < 32" by simp
  moreover from d(1,2) have "32 \<le> length (drop q s)" by simp
  ultimately have "i - q < length (take 32 (drop q s))" by simp
  then have "take 32 (drop q s) ! (i - q) \<in> set (take 32 (drop q s))" by (rule nth_mem)
  with d(4) have "is_hex (take 32 (drop q s) ! (i - q))" by (simp add: list_all_iff)
  moreover have "take 32 (drop q s) ! (i - q) = s ! i"
    using \<open>i - q < 32\<close> assms(3) d(1,2) by simp
  ultimately show ?thesis using hex_quote_no_bracket(1) by metis
next
  case False
  note d = hex_run_D[OF assms(1)]
  from False assms(2) d(3) have "i = q + 32" "n = q + 33" by simp_all
  with d(5) show ?thesis using hex_quote_no_bracket(2) by metis
qed

lemma generic_hex_D:
  assumes "generic_hex prev s = Some n"
  shows "32 \<le> n" and "n \<le> length s" and "CHR ''['' \<notin> set (take n s)"
proof -
  from assms show "32 \<le> n"
    by (cases rule: generic_hex_cases) (use hex_run_D(1) in fastforce)+
  from assms show n: "n \<le> length s"
    by (cases rule: generic_hex_cases) (use hex_run_D(2) in fastforce)+
  have "s ! i \<noteq> CHR ''[''" if "i < n" for i
    using assms
  proof (cases rule: generic_hex_cases)
    case quoted
    show ?thesis
    proof (cases i)
      case 0
      with quoted have "s ! i = hd s" by (simp add: hd_conv_nth)
      with quoted(2) show ?thesis using hex_quote_no_bracket(2) by metis
    next
      case (Suc j)
      with hex_run_no_bracket[OF quoted(3) that] show ?thesis by simp
    qed
  next
    case bare
    from hex_run_no_bracket[OF bare that] show ?thesis by simp
  qed
  with n show "CHR ''['' \<notin> set (take n s)"
    by (auto simp: in_set_conv_nth)
qed

lemma hex_run_transfer:
  assumes "hex_run q a = Some n" and "take n b = take n a" and "n \<le> length b"
  shows "hex_run q b \<noteq> None"
proof -
  note d = hex_run_D[OF assms(1)]
  have "take 32 (drop q b) = drop q (take (q + 32) (take n b))"
    using d(1) by (simp add: drop_take min_def add.commute)
  also have "\<dots> = drop q (take (q + 32) (take n a))" by (simp only: assms(2))
  also have "\<dots> = take 32 (drop q a)"
    using d(1) by (simp add: drop_take min_def add.commute)
  finally have "list_all is_hex (take 32 (drop q b))" using d(4) by simp
  moreover have "32 \<le> length (drop q b)" using d(1) assms(3) by simp
  ultimately show ?thesis by (simp add: hex_run_def)
qed

lemma generic_hex_transfer:
  assumes "generic_hex p a = Some n" and "take n b = take n a" and "n \<le> length b"
  shows "generic_hex p' b \<noteq> None"
  using assms(1)
proof (cases rule: generic_hex_cases)
  case quoted
  from hex_run_D(1)[OF quoted(3)] have n: "1 \<le> n" by simp
  with assms(3) have "b \<noteq> []" by auto
  moreover have "hd b = hd a"
    using n assms(2) quoted(1) \<open>b \<noteq> []\<close> by (metis hd_take less_eq_Suc_le One_nat_def)
  moreover from hex_run_transfer[OF quoted(3) assms(2,3)] obtain k where "hex_run 1 b = Some k" by auto
  ultimately show ?thesis using quoted(2)
    by (cases b) (simp_all add: generic_hex_def)
next
  case bare
  from hex_run_transfer[OF bare assms(2,3)] obtain k where "hex_run 0 b = Some k" by auto
  then show ?thesis
    by (cases b) (simp_all add: generic_hex_def split: option.splits)
qed

lemma generic_hex_prev: "generic_hex p s = generic_hex None s"
  by (simp add: generic_hex_def)

lemma nomatch_generic_hex_prev: "nomatch generic_hex p s = nomatch generic_hex None s"
proof (induction s arbitrary: p)
  case Nil
  show ?case by (simp add: generic_hex_def)
next
  case (Cons c cs)
  from Cons[of "Some c"] show ?case by (simp add: generic_hex_prev[of p])
qed

lemma marker_not_hex:
  "\<not> is_hex CHR ''[''" "\<not> is_hex CHR ''R''" "\<not> is_hex CHR ''T''" "\<not> is_hex CHR '']''"
  "\<not> is_quote CHR ''[''" "\<not> is_quote CHR ''R''" "\<not> is_quote CHR ''E''" "\<not> is_quote CHR ''D''"
  "\<not> is_quote CHR ''A''" "\<not> is_quote CHR ''C''" "\<not> is_quote CHR ''T''" "\<not> is_quote CHR '']''"
  by code_simp+

lemma generic_hex_stops:
  assumes "\<not> is_hex c" and "\<not> is_quote c"
  shows "generic_hex p (c # cs) = None"
  using assms by (simp add: generic_hex_def hex_run_def)

lemma generic_hex_stops_soon:
  assumes "\<not> is_quote c" and "i < 31" and "i < length cs" and "\<not> is_hex (cs ! i)"
  shows "generic_hex p (c # cs) = None"
proof -
  have "\<not> list_all is_hex (take 32 (c # cs))"
  proof
    assume "list_all is_hex (take 32 (c # cs))"
    moreover have "Suc i < length (take 32 (c # cs))" using assms(2,3) by simp
    then have "take 32 (c # cs) ! Suc i \<in> set (take 32 (c # cs))" by (rule nth_mem)
    moreover have "take 32 (c # cs) ! Suc i = cs ! i" using assms(2) by simp
    ultimately show False using assms(4) by (auto simp: list_all_iff)
  qed
  with assms(1) show ?thesis by (simp add: generic_hex_def hex_run_def)
qed

lemma nomatch_generic_hex_marker:
  assumes "nomatch generic_hex q rest"
  shows "nomatch generic_hex p (REDACT @ rest)"
proof -
  have r: "nomatch generic_hex (Some CHR '']'') rest"
    using assms nomatch_generic_hex_prev by blast
  have a: "generic_hex p' (CHR ''E'' # CHR ''D'' # CHR ''A'' # CHR ''C'' # CHR ''T'' # t) = None" for p' t
    by (rule generic_hex_stops_soon[where i = 3]) (simp_all add: marker_not_hex)
  have b: "generic_hex p' (CHR ''D'' # CHR ''A'' # CHR ''C'' # CHR ''T'' # t) = None" for p' t
    by (rule generic_hex_stops_soon[where i = 2]) (simp_all add: marker_not_hex)
  have c: "generic_hex p' (CHR ''A'' # CHR ''C'' # CHR ''T'' # t) = None" for p' t
    by (rule generic_hex_stops_soon[where i = 1]) (simp_all add: marker_not_hex)
  have d: "generic_hex p' (CHR ''C'' # CHR ''T'' # t) = None" for p' t
    by (rule generic_hex_stops_soon[where i = 0]) (simp_all add: marker_not_hex)
  have e: "generic_hex p' (CHR ''E'' # CHR ''D'' # CHR '']'' # t) = None" for p' t
    by (rule generic_hex_stops_soon[where i = 1]) (simp_all add: marker_not_hex)
  have f: "generic_hex p' (CHR ''D'' # CHR '']'' # t) = None" for p' t
    by (rule generic_hex_stops_soon[where i = 0]) (simp_all add: marker_not_hex)
  show ?thesis
    using r by (simp add: REDACT_def a b c d e f generic_hex_stops marker_not_hex)
qed

lemma gsub_generic_hex_nomatch:
  "nomatch generic_hex p' (gsub generic_hex (\<lambda>matched. REDACT) p s)"
proof (induction s arbitrary: p p' rule: length_induct)
  case (1 s)
  note IH = "1.IH"[rule_format]
  show ?case
  proof (cases s)
    case Nil
    have "generic_hex x [] = None" for x by (simp add: generic_hex_def hex_run_def)
    with Nil show ?thesis by simp
  next
    case (Cons c cs)
    show ?thesis
    proof (cases "generic_hex p s")
      case None
      with Cons have out: "gsub generic_hex (\<lambda>matched. REDACT) p s
          = c # gsub generic_hex (\<lambda>matched. REDACT) (Some c) cs" by simp
      have here: "generic_hex p' (gsub generic_hex (\<lambda>matched. REDACT) p s) = None"
      proof (cases "generic_hex p' (gsub generic_hex (\<lambda>matched. REDACT) p s)")
        case None
        then show ?thesis .
      next
        case (Some n)
        note d = generic_hex_D[OF Some]
        from gsub_copy[OF d(2,3)] have "n \<le> length s"
          and "take n s = take n (gsub generic_hex (\<lambda>matched. REDACT) p s)" by simp_all
        from generic_hex_transfer[OF Some this(2,1), of p] \<open>generic_hex p s = None\<close>
        show ?thesis by simp
      qed
      have "nomatch generic_hex (Some c) (gsub generic_hex (\<lambda>matched. REDACT) (Some c) cs)"
        by (rule IH) (simp add: Cons)
      with here show ?thesis unfolding out by simp
    next
      case (Some n)
      note d = generic_hex_D[OF Some]
      from d(1) have n0: "n \<noteq> 0" by simp
      from Some Cons n0 have out: "gsub generic_hex (\<lambda>matched. REDACT) p s
          = REDACT @ gsub generic_hex (\<lambda>matched. REDACT) (Some (last (take n s))) (drop n s)"
        by simp
      have "length (drop n s) < length s" using n0 Cons by simp
      from IH[OF this]
      have "nomatch generic_hex None
              (gsub generic_hex (\<lambda>matched. REDACT) (Some (last (take n s))) (drop n s))" .
      then show ?thesis unfolding out by (rule nomatch_generic_hex_marker)
    qed
  qed
qed

subsection \<open>A replacement adds an opening bracket\<close>

lemma brackets_simps [simp]:
  "brackets [] = 0" "brackets (c # cs) = (if c = CHR ''['' then 1 else 0) + brackets cs"
  "brackets (a @ b) = brackets a + brackets b"
  by (simp_all add: brackets_def)

lemma brackets_REDACT [simp]: "brackets REDACT = 1"
  by (simp add: REDACT_def)

lemma brackets_none: "CHR ''['' \<notin> set t \<Longrightarrow> brackets t = 0"
  by (induction t) auto

lemma brackets_drop:
  assumes "CHR ''['' \<notin> set (take n s)"
  shows "brackets (drop n s) = brackets s"
proof -
  have "brackets s = brackets (take n s @ drop n s)" by simp
  also have "\<dots> = brackets (drop n s)" using brackets_none[OF assms] by (simp only: brackets_simps(3))
  finally show ?thesis by simp
qed

lemma gsub_brackets:
  assumes "bracket_free m"
  shows "brackets s + (if nomatch m prev s then 0 else 1) \<le> brackets (gsub m (\<lambda>matched. REDACT) prev s)"
proof (induction s arbitrary: prev rule: length_induct)
  case (1 s)
  note IH = "1.IH"[rule_format]
  show ?case
  proof (cases s)
    case Nil
    then show ?thesis by (cases "m prev []") simp_all
  next
    case (Cons c cs)
    show ?thesis
    proof (cases "m prev s")
      case None
      have "brackets cs + (if nomatch m (Some c) cs then 0 else 1)
              \<le> brackets (gsub m (\<lambda>matched. REDACT) (Some c) cs)"
        by (rule IH) (simp add: Cons)
      with None Cons show ?thesis by simp
    next
      case (Some n)
      show ?thesis
      proof (cases "n = 0")
        case True
        have "brackets cs + (if nomatch m (Some c) cs then 0 else 1)
                \<le> brackets (gsub m (\<lambda>matched. REDACT) (Some c) cs)"
          by (rule IH) (simp add: Cons)
        then have "brackets cs \<le> brackets (gsub m (\<lambda>matched. REDACT) (Some c) cs)"
          by (simp split: if_splits)
        with Some Cons True show ?thesis by simp
      next
        case False
        from assms Some have "CHR ''['' \<notin> set (take n s)" unfolding bracket_free_def by blast
        then have b: "brackets (drop n s) = brackets s" by (rule brackets_drop)
        have "length (drop n s) < length s" using False Cons by simp
        from IH[OF this, of "Some (last (take n s))"]
        have "brackets (drop n s) \<le> brackets (gsub m (\<lambda>matched. REDACT) (Some (last (take n s))) (drop n s))"
          by (simp split: if_splits)
        with Some Cons False b show ?thesis by simp
      qed
    qed
  qed
qed

lemma redact_each_brackets:
  assumes "\<forall>m \<in> set ms. bracket_free m"
  shows "brackets s \<le> brackets (foldl (\<lambda>out re. replace_all re (\<lambda>matched. REDACT) out) s ms)"
  using assms
proof (induction ms arbitrary: s)
  case Nil
  show ?case by simp
next
  case (Cons m ms)
  from Cons.prems have m: "bracket_free m" and ms: "\<forall>m \<in> set ms. bracket_free m" by simp_all
  from gsub_brackets[OF m, of s None] have "brackets s \<le> brackets (replace_all m (\<lambda>matched. REDACT) s)"
    by (simp add: replace_all_def split: if_splits)
  also note Cons.IH[OF ms, of "replace_all m (\<lambda>matched. REDACT) s"]
  finally show ?case by simp
qed

lemma redact_each_fixed:
  assumes "\<forall>m \<in> set ms. bracket_free m"
    and "foldl (\<lambda>out re. replace_all re (\<lambda>matched. REDACT) out) s ms = s"
  shows "\<forall>m \<in> set ms. nomatch m None s"
  using assms
proof (induction ms)
  case Nil
  show ?case by simp
next
  case (Cons m ms)
  from Cons.prems(1) have m: "bracket_free m" and ms: "\<forall>m \<in> set ms. bracket_free m" by simp_all
  let ?s = "replace_all m (\<lambda>matched. REDACT) s"
  from Cons.prems(2) have fixed: "foldl (\<lambda>out re. replace_all re (\<lambda>matched. REDACT) out) ?s ms = s"
    by simp
  from redact_each_brackets[OF ms, of ?s] fixed have "brackets ?s \<le> brackets s" by simp
  with gsub_brackets[OF m, of s None] have here: "nomatch m None s"
    by (simp add: replace_all_def split: if_splits)
  then have "?s = s" by (simp add: replace_all_def nomatch_gsub)
  with fixed Cons.IH[OF ms] here show ?case by simp
qed

lemma key_like_bracket_free: "key_like P m \<Longrightarrow> bracket_free m"
  unfolding bracket_free_def using key_like_D(9) by blast

lemma SECRET_PATTERNS_bracket_free: "\<forall>m \<in> set SECRET_PATTERNS. bracket_free m"
proof -
  have a: "bracket_free generic_hex"
    unfolding bracket_free_def using generic_hex_D(3) by blast
  have b: "\<forall>m \<in> set KEY_PATTERNS. bracket_free m"
    using KEY_PATTERNS_key_like key_like_bracket_free by blast
  have c: "SECRET_PATTERNS = KEY_PATTERNS @ [generic_hex]"
    by (simp add: KEY_PATTERNS_def SECRET_PATTERNS_def)
  show ?thesis unfolding c using a b by simp
qed

lemma keys_exhausted: "list_all (\<lambda>m. nomatch m None (redactKeys s)) KEY_PATTERNS"
proof -
  from redact_each_keeps_nomatch[OF KEY_PATTERNS_key_like, of "[]" s]
  show ?thesis by (simp add: redactKeys_def list_all_iff)
qed

lemma generic_exhausted: "nomatch generic_hex None (sanitizeContent s)"
  unfolding sanitizeContent_after_keys replace_all_def by (rule gsub_generic_hex_nomatch)

lemma second_pass_iff:
  "sanitizeContent (sanitizeContent s) = sanitizeContent s
     \<longleftrightarrow> list_all (\<lambda>m. nomatch m None (sanitizeContent s)) KEY_PATTERNS"
proof
  assume "sanitizeContent (sanitizeContent s) = sanitizeContent s"
  then have "foldl (\<lambda>out re. replace_all re (\<lambda>matched. REDACT) out) (sanitizeContent s) SECRET_PATTERNS
      = sanitizeContent s"
    by (simp add: sanitizeContent_def)
  from redact_each_fixed[OF SECRET_PATTERNS_bracket_free this]
  have "\<forall>m \<in> set SECRET_PATTERNS. nomatch m None (sanitizeContent s)" .
  moreover have "set KEY_PATTERNS \<subseteq> set SECRET_PATTERNS"
    by (simp add: KEY_PATTERNS_def SECRET_PATTERNS_def)
  ultimately show "list_all (\<lambda>m. nomatch m None (sanitizeContent s)) KEY_PATTERNS"
    by (auto simp: list_all_iff)
next
  assume "list_all (\<lambda>m. nomatch m None (sanitizeContent s)) KEY_PATTERNS"
  then have "\<forall>m \<in> set KEY_PATTERNS. nomatch m None (sanitizeContent s)" by (simp add: list_all_iff)
  from redact_each_unchanged[OF this] have "redactKeys (sanitizeContent s) = sanitizeContent s"
    by (simp add: redactKeys_def)
  then show "sanitizeContent (sanitizeContent s) = sanitizeContent s"
    using generic_exhausted[of s]
    by (simp add: sanitizeContent_after_keys[of "sanitizeContent s"] replace_all_def nomatch_gsub)
qed

subsection \<open>Idempotence\<close>

text \<open>
  C10, as the program has it. After the passes of the six key-shaped patterns none of the
  six matches anywhere, and after the whole pass the generic pattern matches nowhere,
  neither in a marker nor in what is left around it. A second pass of \<open>sanitizeContent\<close>
  changes nothing, \<open>sanitizeContent (sanitizeContent s) = sanitizeContent s\<close>, exactly for
  the contents \<open>s\<close> in whose sanitized text none of the six key-shaped patterns matches.
\<close>

theorem sanitizeContent_idempotent_exactly_when:
  "list_all (\<lambda>m. nomatch m None (redactKeys s)) KEY_PATTERNS
   \<and> nomatch generic_hex None (sanitizeContent s)
   \<and> ((sanitizeContent (sanitizeContent s) = sanitizeContent s)
        = list_all (\<lambda>m. nomatch m None (sanitizeContent s)) KEY_PATTERNS)"
  using keys_exhausted generic_exhausted second_pass_iff by blast

theorem sanitizeContent_idempotent_exactly_when_witness:
  "sanitizeContent md5_line = ''md5 = [REDACTED]''
   \<and> sanitizeContent (sanitizeContent md5_line) = sanitizeContent md5_line
   \<and> sanitizeContent commit_line = ''commit [REDACTED]1b93eb12''
   \<and> sanitizeContent (sanitizeContent commit_line) = sanitizeContent commit_line
   \<and> \<not> list_all (\<lambda>m. nomatch m None (sanitizeContent glued_key)) KEY_PATTERNS
   \<and> sanitizeContent (sanitizeContent glued_key) \<noteq> sanitizeContent glued_key"
proof -
  have a: "sanitizeContent md5_line = ''md5 = [REDACTED]''" by code_simp
  have "list_all (\<lambda>m. nomatch m None ''md5 = [REDACTED]'') KEY_PATTERNS" by code_simp
  with sanitizeContent_idempotent_exactly_when[of md5_line] a
  have b: "sanitizeContent (sanitizeContent md5_line) = sanitizeContent md5_line" by simp
  have c: "sanitizeContent commit_line = ''commit [REDACTED]1b93eb12''" by code_simp
  have "list_all (\<lambda>m. nomatch m None ''commit [REDACTED]1b93eb12'') KEY_PATTERNS" by code_simp
  with sanitizeContent_idempotent_exactly_when[of commit_line] c
  have d: "sanitizeContent (sanitizeContent commit_line) = sanitizeContent commit_line" by simp
  have e: "sanitizeContent glued_key = ''[REDACTED]AKIA0123456789ABCDEF''" by code_simp
  have f: "\<not> list_all (\<lambda>m. nomatch m None ''[REDACTED]AKIA0123456789ABCDEF'') KEY_PATTERNS" by code_simp
  with sanitizeContent_idempotent_exactly_when[of glued_key] e
  have g: "sanitizeContent (sanitizeContent glued_key) \<noteq> sanitizeContent glued_key" by simp
  from a b c d e f g show ?thesis by simp
qed

text \<open>
  The claim itself fails: the generic pattern redacts the 32 digits in the first pass,
  and the marker it leaves puts a word boundary in front of the access key, which only
  the second pass redacts.
\<close>

theorem sanitizeContent_second_pass_redacts_more:
  "sanitizeContent glued_key = ''[REDACTED]AKIA0123456789ABCDEF''
   \<and> sanitizeContent (sanitizeContent glued_key) = ''[REDACTED][REDACTED]''"
  by code_simp
section \<open>Extraction of a fenced object\<close>

subsection \<open>The parser closes the outer object with the last token\<close>

lemma deliver_objects:
  assumes "deliver v st = Some (e', st')"
  shows "open_objects st' = open_objects st"
  using assms by (cases "(v, st)" rule: deliver.cases) auto

lemma deliver_rooted:
  assumes "deliver v st = Some ps" and "st \<noteq> []" and "is_object_frame (last st)"
  shows "rooted ps"
  using assms by (cases "(v, st)" rule: deliver.cases) (auto simp: rooted_def)

lemma pstep_objects:
  assumes "pstep B (e, st) t = Some (e', st')"
  shows "open_objects st' = open_objects st + brace_delta t"
proof (cases e)
  case EValue
  with assms show ?thesis
    by (cases t) (auto split: option.splits dest: deliver_objects)
next
  case EValueOrClose
  with assms show ?thesis
    by (cases t; cases st rule: close_array.cases)
       (auto split: option.splits if_splits dest: deliver_objects)
next
  case ENameOrClose
  with assms show ?thesis
    by (cases "(t, st)" rule: begin_member.cases; cases st rule: close_object.cases)
       (auto split: option.splits if_splits dest: deliver_objects)
next
  case EName
  with assms show ?thesis
    by (cases "(t, st)" rule: begin_member.cases) auto
next
  case EColon
  with assms show ?thesis by (auto split: if_splits)
next
  case ECommaOrClose
  with assms show ?thesis
    by (cases t; cases st rule: close_object.cases)
       (auto split: option.splits if_splits list.splits frame.splits dest: deliver_objects)
next
  case (EDone v)
  with assms show ?thesis by simp
qed
lemma rooted_objects:
  assumes "rooted (e, st)"
  shows "1 \<le> open_objects st"
proof -
  have nonneg: "0 \<le> open_objects s" for s
    by (induction s rule: open_objects.induct) auto
  have "st \<noteq> [] \<Longrightarrow> is_object_frame (last st) \<Longrightarrow> 1 \<le> open_objects st"
  proof (induction st rule: open_objects.induct)
    case 1
    then show ?case by simp
  next
    case (2 kvs k st)
    then show ?case using nonneg[of st] by simp
  next
    case (3 xs st)
    then show ?case by (cases st) auto
  qed
  with assms show ?thesis by (simp add: rooted_def)
qed

lemma deliver_last:
  assumes "deliver v st = Some (e', st')"
  shows "(st = [] \<and> st' = [] \<and> is_done e') \<or> (st \<noteq> [] \<and> st' \<noteq> [] \<and> last st' = last st \<and> \<not> is_done e')
          \<or> (\<exists>f. st = [f] \<and> st' \<noteq> [] \<and> is_object_frame (last st') = is_object_frame f \<and> \<not> is_done e')"
  using assms by (cases "(v, st)" rule: deliver.cases) (auto split: if_splits)

lemma pstep_done:
  assumes "is_done e"
  shows "pstep B (e, st) t = None"
  using assms by (cases e) auto

lemma begin_value_rooted:
  assumes "begin_value B t st = Some ps" and "st \<noteq> []" and "is_object_frame (last st)"
  shows "rooted ps"
  using assms
  by (cases "(B, t, st)" rule: begin_value.cases)
     (auto simp: rooted_def split: option.splits dest: deliver_rooted)

lemma close_array_rooted:
  assumes "close_array st = Some ps" and "st \<noteq> []" and "is_object_frame (last st)"
  shows "rooted ps"
proof (cases st rule: close_array.cases)
  case (1 xs st0)
  with assms(2,3) have "st0 \<noteq> []" "is_object_frame (last st0)"
    by (auto split: if_splits)
  with assms(1) 1 show ?thesis by (auto dest: deliver_rooted)
qed (use assms in auto)

lemma close_object_rooted:
  assumes "close_object st = Some (e', st')" and "st \<noteq> []" and "is_object_frame (last st)"
  shows "rooted (e', st') \<or> (st' = [] \<and> is_done e')"
proof (cases st rule: close_object.cases)
  case (1 kvs st0)
  show ?thesis
  proof (cases st0)
    case Nil
    with assms(1) 1 show ?thesis by auto
  next
    case (Cons f fs)
    with assms(2,3) 1 have "st0 \<noteq> []" "is_object_frame (last st0)" by auto
    with assms(1) 1 show ?thesis by (auto dest: deliver_rooted)
  qed
qed (use assms in auto)

lemma begin_member_rooted:
  assumes "begin_member t st = Some ps" and "st \<noteq> []" and "is_object_frame (last st)"
  shows "rooted ps"
  using assms
  by (cases "(t, st)" rule: begin_member.cases) (auto simp: rooted_def split: if_splits)

lemma pstep_rooted:
  assumes "pstep B (e, st) t = Some (e', st')" and "rooted (e, st)"
  shows "rooted (e', st') \<or> (st' = [] \<and> is_done e' \<and> t = TRBrace)"
proof -
  from assms(2) have st: "st \<noteq> []" "is_object_frame (last st)" and e: "\<not> is_done e"
    by (simp_all add: rooted_def)
  show ?thesis
  proof (cases e)
    case EValue
    with assms(1) st show ?thesis by (auto dest: begin_value_rooted)
  next
    case EValueOrClose
    with assms(1) st show ?thesis
      by (auto split: if_splits dest: begin_value_rooted close_array_rooted)
  next
    case ENameOrClose
    with assms(1) st show ?thesis
      by (auto split: if_splits dest: begin_member_rooted close_object_rooted)
  next
    case EName
    with assms(1) st show ?thesis by (auto dest: begin_member_rooted)
  next
    case EColon
    with assms(1) st show ?thesis by (auto simp: rooted_def split: if_splits)
  next
    case ECommaOrClose
    with assms(1) st show ?thesis
      by (auto simp: rooted_def split: if_splits list.splits frame.splits
            dest: close_array_rooted close_object_rooted)
  next
    case (EDone v)
    with e show ?thesis by simp
  qed
qed

lemma prun_closes:
  assumes "prun B (e, st) ts = Some (e', st')" and "rooted (e, st)" and "is_done e'"
  shows "closes_at_end (open_objects st) ts"
  using assms
proof (induction ts arbitrary: e st)
  case Nil
  then show ?case by (simp add: rooted_def)
next
  case (Cons t ts)
  from Cons.prems(1) obtain e1 st1 where step: "pstep B (e, st) t = Some (e1, st1)"
    and run: "prun B (e1, st1) ts = Some (e', st')"
    by (auto split: option.splits)
  have depth: "open_objects st1 = open_objects st + brace_delta t"
    using pstep_objects[OF step] .
  from pstep_rooted[OF step Cons.prems(2)] show ?case
  proof
    assume r: "rooted (e1, st1)"
    have "ts \<noteq> []"
    proof
      assume "ts = []"
      with run have "e1 = e'" by simp
      with r Cons.prems(3) show False by (simp add: rooted_def)
    qed
    moreover have "closes_at_end (open_objects st1) ts"
      using Cons.IH[OF run r Cons.prems(3)] .
    moreover have "1 \<le> open_objects st1" using rooted_objects[OF r] .
    ultimately show ?thesis by (simp add: depth)
  next
    assume d: "st1 = [] \<and> is_done e1 \<and> t = TRBrace"
    have "ts = []"
    proof (cases ts)
      case Nil
      then show ?thesis .
    next
      case (Cons t' ts')
      with run d show ?thesis by (simp add: pstep_done)
    qed
    with d depth show ?thesis by simp
  qed
qed

declare tokenize.simps [simp del]

lemma tokenize_brace:
  "tokenize (CHR ''{'' # cs) = map_option ((#) TLBrace) (tokenize cs)"
  by (simp add: tokenize.simps is_json_ws_def)

lemma JSON_parse_object_closes:
  assumes "JSON_parse B (CHR ''{'' # cs) = Some v"
  shows "\<exists>ts. tokenize (CHR ''{'' # cs) = Some ts \<and> closes_at_end 0 ts"
proof -
  from assms obtain ts e st where tok: "tokenize (CHR ''{'' # cs) = Some ts"
    and run: "prun B (EValue, []) ts = Some (e, st)" and e: "is_done e"
    by (auto simp: JSON_parse_def split: option.splits expect.splits prod.splits)
  from tok obtain ts' where ts: "ts = TLBrace # ts'" and tok': "tokenize cs = Some ts'"
    by (auto simp: tokenize_brace)
  from run ts have run': "prun B (ENameOrClose, [ObjectFrame [] None]) ts' = Some (e, st)"
    by simp
  have r: "rooted (ENameOrClose, [ObjectFrame [] None])" by (simp add: rooted_def)
  from prun_closes[OF run' r e] have c: "closes_at_end 1 ts'" by simp
  then have "ts' \<noteq> []" by auto
  with c tok ts show ?thesis by simp
qed

subsection \<open>What the lexer consumes\<close>

lemma numchar_plain: "numchar x \<Longrightarrow> plain x"
  by (auto simp: numchar_def plain_def is_digit_def)

lemma take_pieces:
  assumes "a \<le> length s" and "\<forall>x\<in>set (take a s). P x"
    and "b \<le> length (drop a s)" and "\<forall>x\<in>set (take b (drop a s)). P x"
  shows "a + b \<le> length s \<and> (\<forall>x\<in>set (take (a + b) s). P x)"
  using assms by (auto simp: take_add)

lemma sign_len_ok: "sign_len s \<le> length s \<and> (\<forall>x\<in>set (take (sign_len s) s). numchar x)"
  by (cases s) (auto simp: sign_len_def numchar_def)

lemma int_len_ok: "int_len s \<le> length s \<and> (\<forall>x\<in>set (take (int_len s) s). numchar x)"
proof (cases s)
  case Nil
  then show ?thesis by (simp add: int_len_def)
next
  case (Cons c cs)
  have "take (length (takeWhile is_digit s)) s = takeWhile is_digit s"
    by (metis takeWhile_eq_take)
  then have "\<forall>x\<in>set (take (length (takeWhile is_digit s)) s). numchar x"
    by (auto simp: numchar_def dest: set_takeWhileD)
  moreover have "length (takeWhile is_digit s) \<le> length s"
    by (rule length_takeWhile_le)
  ultimately show ?thesis using Cons
    by (auto simp: int_len_def numchar_def is_digit_def)
qed

lemma digits_taken:
  "length (takeWhile is_digit s) \<le> length s \<and> (\<forall>x\<in>set (take (length (takeWhile is_digit s)) s). numchar x)"
proof -
  have "take (length (takeWhile is_digit s)) s = takeWhile is_digit s"
    by (metis takeWhile_eq_take)
  then show ?thesis
    by (auto simp: numchar_def length_takeWhile_le dest: set_takeWhileD)
qed

lemma frac_len_ok: "frac_len s \<le> length s \<and> (\<forall>x\<in>set (take (frac_len s) s). numchar x)"
proof (cases s)
  case Nil
  then show ?thesis by (simp add: frac_len_def)
next
  case (Cons c cs)
  with digits_taken[of cs] show ?thesis
    by (auto simp: frac_len_def numchar_def)
qed

lemma exp_len_ok: "exp_len s \<le> length s \<and> (\<forall>x\<in>set (take (exp_len s) s). numchar x)"
proof (cases s)
  case Nil
  then show ?thesis by (simp add: exp_len_def)
next
  case (Cons c cs)
  define sg :: nat where "sg = (case cs of d # ds \<Rightarrow> if d = CHR ''+'' \<or> d = CHR ''-'' then 1 else 0 | [] \<Rightarrow> 0)"
  have sg: "sg \<le> length cs \<and> (\<forall>x\<in>set (take sg cs). numchar x)"
    by (cases cs) (auto simp: sg_def numchar_def)
  from take_pieces[of sg cs numchar "length (takeWhile is_digit (drop sg cs))"] sg digits_taken[of "drop sg cs"]
  have "sg + length (takeWhile is_digit (drop sg cs)) \<le> length cs
      \<and> (\<forall>x\<in>set (take (sg + length (takeWhile is_digit (drop sg cs))) cs). numchar x)"
    by blast
  with Cons show ?thesis
    by (auto simp: exp_len_def Let_def sg_def[symmetric] numchar_def)
qed

lemma lex_number_plain:
  assumes "lex_number s = Some n"
  shows "1 \<le> n \<and> n \<le> length s \<and> (\<forall>x\<in>set (take n s). plain x)"
proof -
  define a where "a = sign_len s"
  define b where "b = int_len (drop a s)"
  define c where "c = frac_len (drop (a + b) s)"
  define d where "d = exp_len (drop (a + b + c) s)"
  from assms have n: "n = a + b + c + d" and b: "b \<noteq> 0"
    by (auto simp: lex_number_def Let_def a_def b_def c_def d_def split: if_splits)
  have 1: "a + b \<le> length s \<and> (\<forall>x\<in>set (take (a + b) s). numchar x)"
    using take_pieces[of a s numchar b] sign_len_ok[of s] int_len_ok[of "drop a s"]
    by (simp add: a_def b_def)
  have 2: "a + b + c \<le> length s \<and> (\<forall>x\<in>set (take (a + b + c) s). numchar x)"
    using take_pieces[of "a + b" s numchar c] 1 frac_len_ok[of "drop (a + b) s"]
    by (simp add: c_def)
  have 3: "a + b + c + d \<le> length s \<and> (\<forall>x\<in>set (take (a + b + c + d) s). numchar x)"
    using take_pieces[of "a + b + c" s numchar d] 2 exp_len_ok[of "drop (a + b + c) s"]
    by (simp add: d_def)
  with n b show ?thesis by (auto dest: numchar_plain)
qed
lemma ws_plain: "is_json_ws c \<Longrightarrow> plain c"
  by (auto simp: is_json_ws_def plain_def)

lemma tokenize_cases:
  assumes "tokenize (c # cs) = Some toks"
  obtains
    (ws) "is_json_ws c" "tokenize cs = Some toks"
  | (lbrace) toks' where "c = CHR ''{''" "tokenize cs = Some toks'" "toks = TLBrace # toks'"
  | (rbrace) toks' where "c = CHR ''}''" "tokenize cs = Some toks'" "toks = TRBrace # toks'"
  | (str) s n toks' where "c = CHR 0x22" "lex_string cs = Some (s, n)"
      "tokenize (drop n cs) = Some toks'" "toks = TString s # toks'"
  | (other) n t toks' where "1 \<le> n" "n \<le> length (c # cs)" "\<forall>x\<in>set (take n (c # cs)). plain x"
      "tokenize (drop n (c # cs)) = Some toks'" "toks = t # toks'" "brace_delta t = 0" "t \<noteq> TRBrace"
proof -
  note eq = assms[unfolded tokenize.simps(2)]
  consider (a) "is_json_ws c"
    | (b) "\<not> is_json_ws c" "c = CHR ''{''"
    | (c) "\<not> is_json_ws c" "c = CHR ''}''"
    | (d) "\<not> is_json_ws c" "c = CHR ''['' \<or> c = CHR '']'' \<or> c = CHR '':'' \<or> c = CHR '',''"
    | (e) "\<not> is_json_ws c" "c = CHR 0x22"
    | (f) "\<not> is_json_ws c" "c = CHR ''-'' \<or> is_digit c"
    | (g) "\<not> is_json_ws c" "c \<noteq> CHR ''{''" "c \<noteq> CHR ''}''" "c \<noteq> CHR ''[''" "c \<noteq> CHR '']''"
          "c \<noteq> CHR '':''" "c \<noteq> CHR '',''" "c \<noteq> CHR 0x22" "\<not> (c = CHR ''-'' \<or> is_digit c)"
    by blast
  then show thesis
  proof cases
    case a
    with eq show ?thesis by (auto intro: ws)
  next
    case b
    with eq show ?thesis by (auto intro: lbrace)
  next
    case c
    with eq show ?thesis by (auto intro: rbrace)
  next
    case d
    with eq obtain t toks' where "tokenize cs = Some toks'" "toks = t # toks'" "brace_delta t = 0" "t \<noteq> TRBrace"
      by auto
    moreover from d have "plain c" by (auto simp: plain_def)
    ultimately show ?thesis using other[of 1 toks' t] by simp
  next
    case e
    with eq show ?thesis by (auto split: option.splits intro: str)
  next
    case f
    then have nq: "c \<noteq> CHR ''{''" "c \<noteq> CHR ''}''" "c \<noteq> CHR ''[''" "c \<noteq> CHR '']''"
          "c \<noteq> CHR '':''" "c \<noteq> CHR '',''" "c \<noteq> CHR 0x22"
      by (auto simp: is_digit_def)
    with eq f have "(case lex_number (c # cs) of
          None \<Rightarrow> None
        | Some n \<Rightarrow> map_option ((#) (TNumber (take n (c # cs)))) (tokenize (drop (n - 1) cs))) = Some toks"
      by (simp only: if_False if_True)
    then obtain n toks' where n: "lex_number (c # cs) = Some n"
      and t: "tokenize (drop (n - 1) cs) = Some toks'" "toks = TNumber (take n (c # cs)) # toks'"
      by (cases "lex_number (c # cs)") (auto simp del: take_Suc_Cons)
    from lex_number_plain[OF n] have p: "1 \<le> n" "n \<le> length (c # cs)" "\<forall>x\<in>set (take n (c # cs)). plain x"
      by auto
    from p(1) have "drop n (c # cs) = drop (n - 1) cs" by (cases n) auto
    with t p show ?thesis using other[of n toks' "TNumber (take n (c # cs))"] by simp
  next
    case g
    with eq have lit: "(if take 4 (c # cs) = ''true'' then map_option ((#) TTrue) (tokenize (drop 3 cs))
       else if take 5 (c # cs) = ''false'' then map_option ((#) TFalse) (tokenize (drop 4 cs))
       else if take 4 (c # cs) = ''null'' then map_option ((#) TNull) (tokenize (drop 3 cs))
       else None) = Some toks"
      by (simp only: if_False)
    have len: "length (take k (c # cs)) = k \<Longrightarrow> k \<le> length (c # cs)" for k
      by (simp only: length_take)
    have tr: "take (Suc k) (c # cs) = c # take k cs" for k by simp
    from lit consider
        (t) toks' where "take 4 (c # cs) = ''true''" "tokenize (drop 3 cs) = Some toks'" "toks = TTrue # toks'"
      | (f) toks' where "take 5 (c # cs) = ''false''" "tokenize (drop 4 cs) = Some toks'" "toks = TFalse # toks'"
      | (n) toks' where "take 4 (c # cs) = ''null''" "tokenize (drop 3 cs) = Some toks'" "toks = TNull # toks'"
      by (auto split: if_splits simp del: take_Suc_Cons)
    then show ?thesis
    proof cases
      case t
      from t(1) have "4 \<le> length (c # cs)" by (intro len) simp
      moreover from t(1) have "\<forall>x\<in>set (take 4 (c # cs)). plain x" by (simp add: plain_def)
      moreover have "drop 4 (c # cs) = drop 3 cs" by (simp add: numeral_eq_Suc)
      ultimately show ?thesis using t other[of 4 toks' TTrue] by simp
    next
      case f
      from f(1) have "5 \<le> length (c # cs)" by (intro len) simp
      moreover from f(1) have "\<forall>x\<in>set (take 5 (c # cs)). plain x" by (simp add: plain_def)
      moreover have "drop 5 (c # cs) = drop 4 cs" by (simp add: numeral_eq_Suc)
      ultimately show ?thesis using f other[of 5 toks' TFalse] by simp
    next
      case n
      from n(1) have "4 \<le> length (c # cs)" by (intro len) simp
      moreover from n(1) have "\<forall>x\<in>set (take 4 (c # cs)). plain x" by (simp add: plain_def)
      moreover have "drop 4 (c # cs) = drop 3 cs" by (simp add: numeral_eq_Suc)
      ultimately show ?thesis using n other[of 4 toks' TNull] by simp
    qed
  qed
qed

subsection \<open>The brace scanner follows the lexer\<close>

lemma matching_brace_quote:
  "matching_brace d False e q s = matching_brace d False e q' s"
  by (induction s arbitrary: d) auto

lemma matching_brace_plain:
  assumes "n \<le> length s" and "\<forall>x\<in>set (take n s). plain x"
  shows "matching_brace d False e q (s @ rest)
           = map_option (\<lambda>k. k + n) (matching_brace d False e q (drop n s @ rest))"
  using assms
proof (induction n arbitrary: s)
  case 0
  then show ?case by (simp add: option.map_ident)
next
  case (Suc n)
  then obtain c cs where s: "s = c # cs" by (cases s) auto
  with Suc.prems have c: "plain c" and n: "n \<le> length cs" "\<forall>x\<in>set (take n cs). plain x"
    by auto
  from c have "matching_brace d False e q ((c # cs) @ rest) = map_option Suc (matching_brace d False e q (cs @ rest))"
    by (simp add: plain_def)
  also have "\<dots> = map_option Suc (map_option (\<lambda>k. k + n) (matching_brace d False e q (drop n cs @ rest)))"
    using Suc.IH[OF n] by simp
  finally show ?case by (simp add: s option.map_comp comp_def)
qed

lemma matching_brace_in_string:
  assumes "n \<le> length s" and "\<forall>x\<in>set (take n s). x \<noteq> CHR 0x5C \<and> x \<noteq> q"
  shows "matching_brace d True False q (s @ rest)
           = map_option (\<lambda>k. k + n) (matching_brace d True False q (drop n s @ rest))"
  using assms
proof (induction n arbitrary: s)
  case 0
  then show ?case by (simp add: option.map_ident)
next
  case (Suc n)
  then obtain c cs where s: "s = c # cs" by (cases s) auto
  with Suc.prems have c: "c \<noteq> CHR 0x5C" "c \<noteq> q" and n: "n \<le> length cs" "\<forall>x\<in>set (take n cs). x \<noteq> CHR 0x5C \<and> x \<noteq> q"
    by auto
  from c have "matching_brace d True False q ((c # cs) @ rest) = map_option Suc (matching_brace d True False q (cs @ rest))"
    by simp
  also have "\<dots> = map_option Suc (map_option (\<lambda>k. k + n) (matching_brace d True False q (drop n cs @ rest)))"
    using Suc.IH[OF n] by simp
  finally show ?case by (simp add: s option.map_comp comp_def)
qed

lemma hex_not_special:
  assumes "is_hex x"
  shows "x \<noteq> CHR 0x5C \<and> x \<noteq> CHR 0x22 \<and> x \<noteq> CHR 0x0A \<and> x \<noteq> CHR 0x0D"
  using assms by (auto simp: is_hex_def is_digit_def)

lemma unicode_escape_hex:
  assumes "unicode_escape (take 4 es) = Some ch"
  shows "4 \<le> length es \<and> (\<forall>x\<in>set (take 4 es). is_hex x)"
proof -
  from assms have "length (take 4 es) = 4" "list_all is_hex (take 4 es)"
    by (auto simp: unicode_escape_def split: if_splits)
  then show ?thesis by (auto simp: list_all_iff)
qed

lemma escape_char_cases:
  assumes "escape_char e = Some ch"
  shows "e \<noteq> CHR ''u''"
  using assms by (auto simp: escape_char_def split: if_splits)

lemma lex_string_Cons:
  assumes "lex_string (c # cs) = Some (str, n)"
  obtains
    (close) "c = CHR 0x22" "n = 1"
  | (unicode) es ch str' n' where "c = CHR 0x5C" "cs = CHR ''u'' # es" "unicode_escape (take 4 es) = Some ch"
      "lex_string (drop 4 es) = Some (str', n')" "n = n' + 6"
  | (escape) e es ch str' n' where "c = CHR 0x5C" "cs = e # es" "e \<noteq> CHR ''u''" "escape_char e = Some ch"
      "lex_string es = Some (str', n')" "n = n' + 2"
  | (ordinary) str' n' where "c \<noteq> CHR 0x22" "c \<noteq> CHR 0x5C" "\<not> (of_char c :: nat) < 32"
      "lex_string cs = Some (str', n')" "n = n' + 1"
proof -
  consider (a) "c = CHR 0x22" | (b) "c \<noteq> CHR 0x22" "c = CHR 0x5C" | (c) "c \<noteq> CHR 0x22" "c \<noteq> CHR 0x5C"
    by blast
  then show thesis
  proof cases
    case a
    with assms show ?thesis by (auto intro: close)
  next
    case b
    show ?thesis
    proof (cases cs)
      case Nil
      with assms b show ?thesis by simp
    next
      case (Cons e es)
      show ?thesis
      proof (cases "e = CHR ''u''")
        case True
        with assms b Cons show ?thesis
          by (auto split: option.splits intro: unicode)
      next
        case False
        with assms b Cons show ?thesis
          by (auto split: option.splits intro: escape)
      qed
    qed
  next
    case c
    with assms show ?thesis
      by (auto split: if_splits intro: ordinary)
  qed
qed

lemma matching_brace_string:
  assumes "lex_string cs = Some (str, n)"
  shows "1 \<le> n \<and> n \<le> length cs
       \<and> matching_brace d True False (CHR 0x22) (cs @ rest)
           = map_option (\<lambda>k. k + n) (matching_brace d False False (CHR 0x22) (drop n cs @ rest))"
  using assms
proof (induction cs arbitrary: str n rule: length_induct)
  case (1 cs)
  show ?case
  proof (cases cs)
    case Nil
    with "1.prems" show ?thesis by simp
  next
    case (Cons c cs')
    from "1.prems"[unfolded Cons] show ?thesis
    proof (cases rule: lex_string_Cons)
      case close
      then show ?thesis by (simp add: Cons)
    next
      case (unicode es ch str' n')
      from unicode_escape_hex[OF unicode(3)]
      have len: "4 \<le> length es" and hex: "\<forall>x\<in>set (take 4 es). x \<noteq> CHR 0x5C \<and> x \<noteq> CHR 0x22"
        by (auto dest: hex_not_special)
      have "length (drop 4 es) < length cs" by (simp add: Cons unicode(2))
      with "1.IH" unicode(4) have ih: "1 \<le> n'" "n' \<le> length (drop 4 es)"
        "matching_brace d True False (CHR 0x22) (drop 4 es @ rest)
           = map_option (\<lambda>k. k + n') (matching_brace d False False (CHR 0x22) (drop n' (drop 4 es) @ rest))"
        by blast+
      have "matching_brace d True False (CHR 0x22) (cs @ rest)
              = map_option Suc (map_option Suc (matching_brace d True False (CHR 0x22) (es @ rest)))"
        by (simp add: Cons unicode(1,2))
      also have "matching_brace d True False (CHR 0x22) (es @ rest)
              = map_option (\<lambda>k. k + 4) (matching_brace d True False (CHR 0x22) (drop 4 es @ rest))"
        using matching_brace_in_string[OF len hex] .
      finally have "matching_brace d True False (CHR 0x22) (cs @ rest)
              = map_option (\<lambda>k. k + n) (matching_brace d False False (CHR 0x22) (drop n' (drop 4 es) @ rest))"
        by (simp add: ih(3) option.map_comp comp_def unicode(5) add_ac)
      moreover have "drop n cs = drop n' (drop 4 es)"
      proof -
        have "n = Suc (Suc (n' + 4))" using unicode(5) by simp
        then have "drop n cs = drop (n' + 4) es"
          unfolding Cons unicode(2) by (simp only: drop_Suc_Cons)
        then show ?thesis by simp
      qed
      moreover have "n \<le> length cs" using ih(2) len by (simp add: Cons unicode(2,5))
      ultimately show ?thesis using unicode(5) by simp
    next
      case (escape e es ch str' n')
      have "length es < length cs" by (simp add: Cons escape(2))
      with "1.IH" escape(5) have ih: "1 \<le> n'" "n' \<le> length es"
        "matching_brace d True False (CHR 0x22) (es @ rest)
           = map_option (\<lambda>k. k + n') (matching_brace d False False (CHR 0x22) (drop n' es @ rest))"
        by blast+
      have "matching_brace d True False (CHR 0x22) (cs @ rest)
              = map_option Suc (map_option Suc (matching_brace d True False (CHR 0x22) (es @ rest)))"
        by (simp add: Cons escape(1,2))
      then have "matching_brace d True False (CHR 0x22) (cs @ rest)
              = map_option (\<lambda>k. k + n) (matching_brace d False False (CHR 0x22) (drop n' es @ rest))"
        by (simp add: ih(3) option.map_comp comp_def escape(6) add_ac)
      moreover have "drop n cs = drop n' es"
      proof -
        have "n = Suc (Suc n')" using escape(6) by simp
        then show ?thesis
          unfolding Cons escape(2) by (simp only: drop_Suc_Cons)
      qed
      moreover have "n \<le> length cs" using ih(2) by (simp add: Cons escape(2,6))
      ultimately show ?thesis using escape(6) by simp
    next
      case (ordinary str' n')
      have "length cs' < length cs" by (simp add: Cons)
      with "1.IH" ordinary(4) have ih: "1 \<le> n'" "n' \<le> length cs'"
        "matching_brace d True False (CHR 0x22) (cs' @ rest)
           = map_option (\<lambda>k. k + n') (matching_brace d False False (CHR 0x22) (drop n' cs' @ rest))"
        by blast+
      have "matching_brace d True False (CHR 0x22) (cs @ rest)
              = map_option Suc (matching_brace d True False (CHR 0x22) (cs' @ rest))"
        using ordinary(1,2) by (simp add: Cons)
      then have "matching_brace d True False (CHR 0x22) (cs @ rest)
              = map_option (\<lambda>k. k + n) (matching_brace d False False (CHR 0x22) (drop n' cs' @ rest))"
        by (simp add: ih(3) option.map_comp comp_def ordinary(5) add_ac)
      moreover have "drop n cs = drop n' cs'"
      proof -
        have "n = Suc n'" using ordinary(5) by simp
        then show ?thesis
          unfolding Cons by (simp only: drop_Suc_Cons)
      qed
      moreover have "n \<le> length cs" using ih(2) by (simp add: Cons ordinary(5))
      ultimately show ?thesis using ordinary(5) by simp
    qed
  qed
qed

lemma tokenize_no_tokens:
  assumes "tokenize cs = Some []"
  shows "\<forall>x\<in>set cs. is_json_ws x"
  using assms
proof (induction cs)
  case Nil
  then show ?case by simp
next
  case (Cons c cs)
  from Cons.prems show ?case
    by (cases rule: tokenize_cases) (use Cons.IH in auto)
qed

lemma tokenize_tokens_nonempty:
  assumes "tokenize cs = Some ts" and "ts \<noteq> []"
  shows "cs \<noteq> []"
  using assms by (auto simp: tokenize.simps)

lemma brace_not_ws: "\<not> is_json_ws (CHR ''}'')"
  by (simp add: is_json_ws_def)

text \<open>
  On a text whose tokens keep the depth above 0 up to a last closing brace, the scanner
  stops at the last code unit, whatever follows the text.
\<close>

lemma matching_brace_closes:
  assumes "tokenize cs = Some ts" and "closes_at_end d ts" and "last cs = CHR ''}''"
  shows "matching_brace d False False q (cs @ rest) = Some (length cs - 1)"
  using assms
proof (induction cs arbitrary: ts d q rule: length_induct)
  case (1 cs)
  from "1.prems"(2) have ts: "ts \<noteq> []" by auto
  with "1.prems"(1) have "cs \<noteq> []" by (rule tokenize_tokens_nonempty)
  then obtain c cs' where cs: "cs = c # cs'" by (cases cs) auto
  have step: "matching_brace d' False False q' (xs @ rest) = Some (length xs - 1)"
    if "length xs < length cs" "tokenize xs = Some ts'" "closes_at_end d' ts'" "last xs = CHR ''}''"
    for xs ts' d' q'
    using "1.IH" that by blast
  have tail: "xs \<noteq> [] \<and> last xs = CHR ''}''"
    if "tokenize xs = Some ts'" "ts' \<noteq> []" "xs = drop n cs" for xs ts' n
  proof -
    from that(1,2) have "xs \<noteq> []" by (rule tokenize_tokens_nonempty)
    moreover from this that(3) have "last xs = last cs" by (simp add: last_drop)
    ultimately show ?thesis using "1.prems"(3) by simp
  qed
  from "1.prems"(1)[unfolded cs] show ?case
  proof (cases rule: tokenize_cases)
    case ws
    have x: "cs' \<noteq> [] \<and> last cs' = CHR ''}''"
      using tail[OF ws(2) ts, of 1] by (simp add: cs)
    have "matching_brace d False False q (cs @ rest) = map_option Suc (matching_brace d False False q (cs' @ rest))"
      using ws_plain[OF ws(1)] by (simp add: cs plain_def)
    also have "matching_brace d False False q (cs' @ rest) = Some (length cs' - 1)"
      using step[OF _ ws(2) "1.prems"(2)] x by (simp add: cs)
    finally show ?thesis using x by (simp add: cs)
  next
    case (lbrace ts')
    from "1.prems"(2) lbrace(3) have c: "ts' \<noteq> []" "closes_at_end (d + 1) ts'"
      by (auto split: if_splits)
    have x: "cs' \<noteq> [] \<and> last cs' = CHR ''}''"
      using tail[OF lbrace(2) c(1), of 1] by (simp add: cs)
    have "matching_brace d False False q (cs @ rest) = map_option Suc (matching_brace (d + 1) False False q (cs' @ rest))"
      by (simp add: cs lbrace(1))
    also have "matching_brace (d + 1) False False q (cs' @ rest) = Some (length cs' - 1)"
      using step[OF _ lbrace(2) c(2)] x by (simp add: cs)
    finally show ?thesis using x by (simp add: cs)
  next
    case (rbrace ts')
    show ?thesis
    proof (cases "ts' = []")
      case True
      with "1.prems"(2) rbrace(3) have d: "d - 1 = 0" by simp
      have "cs' = []"
      proof (rule ccontr)
        assume ne: "cs' \<noteq> []"
        with "1.prems"(3) have "last cs' = CHR ''}''" by (simp add: cs)
        moreover from ne have "last cs' \<in> set cs'" by simp
        ultimately show False
          using tokenize_no_tokens[OF rbrace(2)[unfolded True]] brace_not_ws by auto
      qed
      with d show ?thesis by (simp add: cs rbrace(1))
    next
      case False
      with "1.prems"(2) rbrace(3) have c: "1 \<le> d - 1" "closes_at_end (d - 1) ts'"
        by (auto split: if_splits)
      have x: "cs' \<noteq> [] \<and> last cs' = CHR ''}''"
        using tail[OF rbrace(2) False, of 1] by (simp add: cs)
      from c(1) have "matching_brace d False False q (cs @ rest) = map_option Suc (matching_brace (d - 1) False False q (cs' @ rest))"
        by (simp add: cs rbrace(1))
      also have "matching_brace (d - 1) False False q (cs' @ rest) = Some (length cs' - 1)"
        using step[OF _ rbrace(2) c(2)] x by (simp add: cs)
      finally show ?thesis using x by (simp add: cs)
    qed
  next
    case (str s n ts')
    from "1.prems"(2) str(4) have c: "ts' \<noteq> []" "closes_at_end d ts'"
      by (auto split: if_splits)
    from matching_brace_string[OF str(2), of d rest]
    have n: "1 \<le> n" "n \<le> length cs'"
      and m: "matching_brace d True False (CHR 0x22) (cs' @ rest)
                = map_option (\<lambda>k. k + n) (matching_brace d False False (CHR 0x22) (drop n cs' @ rest))"
      by simp_all
    have x: "drop n cs' \<noteq> [] \<and> last (drop n cs') = CHR ''}''"
      using tail[OF str(3) c(1), of "Suc n"] by (simp add: cs)
    have a: "matching_brace d False False q (cs @ rest) = map_option Suc (matching_brace d True False (CHR 0x22) (cs' @ rest))"
      by (simp add: cs str(1))
    have b: "matching_brace d False False (CHR 0x22) (drop n cs' @ rest) = Some (length (drop n cs') - 1)"
      using step[OF _ str(3) c(2)] x by (simp add: cs)
    have "matching_brace d False False q (cs @ rest) = Some (Suc (length (drop n cs') - 1 + n))"
      by (simp only: a m b option.map)
    moreover have "Suc (length (drop n cs') - 1 + n) = length cs - 1"
      using x n by (simp add: cs)
    ultimately show ?thesis by simp
  next
    case (other n t ts')
    from "1.prems"(2) other(5,6,7) have c: "ts' \<noteq> []" "closes_at_end d ts'"
      by (auto split: if_splits)
    have x: "drop n cs \<noteq> [] \<and> last (drop n cs) = CHR ''}''"
      using tail[OF other(4)[folded cs] c(1), of n] by simp
    have "matching_brace d False False q (cs @ rest)
            = map_option (\<lambda>k. k + n) (matching_brace d False False q (drop n cs @ rest))"
      using matching_brace_plain[OF other(2,3)[folded cs]] .
    also have "matching_brace d False False q (drop n cs @ rest) = Some (length (drop n cs) - 1)"
    proof -
      have "length (drop n cs) < length cs" using other(1) by (simp add: cs)
      from step[OF this other(4)[folded cs] c(2)] x show ?thesis by blast
    qed
    finally show ?thesis using x other(1) by simp
  qed
qed

subsection \<open>Nothing to escape in a well-formed text\<close>

lemma escape_outside:
  assumes "n \<le> length s" and "\<forall>x\<in>set (take n s). x \<noteq> CHR 0x22"
  shows "escapeNewlinesInJsonStrings_from False False (s @ rest)
           = take n s @ escapeNewlinesInJsonStrings_from False False (drop n s @ rest)"
  using assms
proof (induction n arbitrary: s)
  case 0
  then show ?case by simp
next
  case (Suc n)
  then obtain c cs where s: "s = c # cs" by (cases s) auto
  with Suc.prems have "c \<noteq> CHR 0x22" "n \<le> length cs" "\<forall>x\<in>set (take n cs). x \<noteq> CHR 0x22"
    by auto
  with Suc.IH[of cs] show ?case by (simp add: s)
qed

lemma escape_inside:
  assumes "n \<le> length s"
    and "\<forall>x\<in>set (take n s). x \<noteq> CHR 0x22 \<and> x \<noteq> CHR 0x5C \<and> x \<noteq> CHR 0x0A \<and> x \<noteq> CHR 0x0D"
  shows "escapeNewlinesInJsonStrings_from True False (s @ rest)
           = take n s @ escapeNewlinesInJsonStrings_from True False (drop n s @ rest)"
  using assms
proof (induction n arbitrary: s)
  case 0
  then show ?case by simp
next
  case (Suc n)
  then obtain c cs where s: "s = c # cs" by (cases s) auto
  with Suc.prems have "c \<noteq> CHR 0x22" "c \<noteq> CHR 0x5C" "c \<noteq> CHR 0x0A" "c \<noteq> CHR 0x0D" "n \<le> length cs"
    "\<forall>x\<in>set (take n cs). x \<noteq> CHR 0x22 \<and> x \<noteq> CHR 0x5C \<and> x \<noteq> CHR 0x0A \<and> x \<noteq> CHR 0x0D"
    by auto
  with Suc.IH[of cs] show ?case by (simp add: s)
qed

lemma printable_not_newline:
  assumes "\<not> (of_char c :: nat) < 32"
  shows "c \<noteq> CHR 0x0A \<and> c \<noteq> CHR 0x0D"
  using assms by auto

lemma escape_string:
  assumes "lex_string cs = Some (str, n)"
  shows "escapeNewlinesInJsonStrings_from True False (cs @ rest)
           = take n cs @ escapeNewlinesInJsonStrings_from False False (drop n cs @ rest)"
  using assms
proof (induction cs arbitrary: str n rule: length_induct)
  case (1 cs)
  show ?case
  proof (cases cs)
    case Nil
    with "1.prems" show ?thesis by simp
  next
    case (Cons c cs')
    from "1.prems"[unfolded Cons] show ?thesis
    proof (cases rule: lex_string_Cons)
      case close
      then show ?thesis by (simp add: Cons)
    next
      case (unicode es ch str' n')
      from unicode_escape_hex[OF unicode(3)]
      have len: "4 \<le> length es"
        and hex: "\<forall>x\<in>set (take 4 es). x \<noteq> CHR 0x22 \<and> x \<noteq> CHR 0x5C \<and> x \<noteq> CHR 0x0A \<and> x \<noteq> CHR 0x0D"
        by (auto dest: hex_not_special)
      have "length (drop 4 es) < length cs" by (simp add: Cons unicode(2))
      with "1.IH" unicode(4)
      have ih: "escapeNewlinesInJsonStrings_from True False (drop 4 es @ rest)
                  = take n' (drop 4 es) @ escapeNewlinesInJsonStrings_from False False (drop n' (drop 4 es) @ rest)"
        by blast
      have n: "n = Suc (Suc (4 + n'))" using unicode(5) by simp
      have "escapeNewlinesInJsonStrings_from True False (cs @ rest)
              = c # CHR ''u'' # escapeNewlinesInJsonStrings_from True False (es @ rest)"
        by (simp add: Cons unicode(1,2))
      also have "escapeNewlinesInJsonStrings_from True False (es @ rest)
              = take 4 es @ escapeNewlinesInJsonStrings_from True False (drop 4 es @ rest)"
        using escape_inside[OF len hex] .
      finally have "escapeNewlinesInJsonStrings_from True False (cs @ rest)
              = (c # CHR ''u'' # take 4 es @ take n' (drop 4 es))
                @ escapeNewlinesInJsonStrings_from False False (drop n' (drop 4 es) @ rest)"
        by (simp add: ih)
      moreover have "take n cs = c # CHR ''u'' # take 4 es @ take n' (drop 4 es)"
        unfolding n Cons unicode(2) by (simp only: take_Suc_Cons take_add)
      moreover have "drop n cs = drop n' (drop 4 es)"
        unfolding n Cons unicode(2) by (simp only: drop_Suc_Cons drop_drop add.commute)
      ultimately show ?thesis by simp
    next
      case (escape e es ch str' n')
      have "length es < length cs" by (simp add: Cons escape(2))
      with "1.IH" escape(5)
      have ih: "escapeNewlinesInJsonStrings_from True False (es @ rest)
                  = take n' es @ escapeNewlinesInJsonStrings_from False False (drop n' es @ rest)"
        by blast
      have n: "n = Suc (Suc n')" using escape(6) by simp
      have "escapeNewlinesInJsonStrings_from True False (cs @ rest)
              = c # e # escapeNewlinesInJsonStrings_from True False (es @ rest)"
        by (simp add: Cons escape(1,2))
      then show ?thesis
        unfolding n Cons escape(2) by (simp add: ih)
    next
      case (ordinary str' n')
      have "length cs' < length cs" by (simp add: Cons)
      with "1.IH" ordinary(4)
      have ih: "escapeNewlinesInJsonStrings_from True False (cs' @ rest)
                  = take n' cs' @ escapeNewlinesInJsonStrings_from False False (drop n' cs' @ rest)"
        by blast
      have n: "n = Suc n'" using ordinary(5) by simp
      from ordinary(1,2) printable_not_newline[OF ordinary(3)]
      have "escapeNewlinesInJsonStrings_from True False (cs @ rest)
              = c # escapeNewlinesInJsonStrings_from True False (cs' @ rest)"
        by (simp add: Cons)
      then show ?thesis
        unfolding n Cons by (simp add: ih)
    qed
  qed
qed

lemma escape_tokens:
  assumes "tokenize cs = Some ts"
  shows "escapeNewlinesInJsonStrings_from False False (cs @ rest)
           = cs @ escapeNewlinesInJsonStrings_from False False rest"
  using assms
proof (induction cs arbitrary: ts rule: length_induct)
  case (1 cs)
  show ?case
  proof (cases cs)
    case Nil
    then show ?thesis by simp
  next
    case (Cons c cs')
    have step: "escapeNewlinesInJsonStrings_from False False (xs @ rest)
                  = xs @ escapeNewlinesInJsonStrings_from False False rest"
      if "length xs < length cs" "tokenize xs = Some ts'" for xs ts'
      using "1.IH" that by blast
    have one: "escapeNewlinesInJsonStrings_from False False (cs @ rest)
                 = c # escapeNewlinesInJsonStrings_from False False (cs' @ rest)"
      if "c \<noteq> CHR 0x22"
      using that by (simp add: Cons)
    from "1.prems"[unfolded Cons] show ?thesis
    proof (cases rule: tokenize_cases)
      case ws
      from ws_plain[OF ws(1)] have "c \<noteq> CHR 0x22" by (simp add: plain_def)
      from one[OF this] step[OF _ ws(2)] show ?thesis by (simp add: Cons)
    next
      case (lbrace ts')
      then have "c \<noteq> CHR 0x22" by simp
      from one[OF this] step[OF _ lbrace(2)] show ?thesis by (simp add: Cons)
    next
      case (rbrace ts')
      then have "c \<noteq> CHR 0x22" by simp
      from one[OF this] step[OF _ rbrace(2)] show ?thesis by (simp add: Cons)
    next
      case (str s n ts')
      from matching_brace_string[OF str(2), of 0 "[]"] have n: "n \<le> length cs'" by simp
      have "escapeNewlinesInJsonStrings_from False False (cs @ rest)
              = c # escapeNewlinesInJsonStrings_from True False (cs' @ rest)"
        by (simp add: Cons str(1))
      also have "escapeNewlinesInJsonStrings_from True False (cs' @ rest)
              = take n cs' @ escapeNewlinesInJsonStrings_from False False (drop n cs' @ rest)"
        using escape_string[OF str(2)] .
      also have "escapeNewlinesInJsonStrings_from False False (drop n cs' @ rest)
              = drop n cs' @ escapeNewlinesInJsonStrings_from False False rest"
        using step[OF _ str(3)] by (simp add: Cons)
      finally show ?thesis by (simp add: Cons)
    next
      case (other n t ts')
      from other(3) have q: "\<forall>x\<in>set (take n cs). x \<noteq> CHR 0x22"
        by (auto simp: plain_def Cons)
      have "escapeNewlinesInJsonStrings_from False False (cs @ rest)
              = take n cs @ escapeNewlinesInJsonStrings_from False False (drop n cs @ rest)"
        using escape_outside[OF other(2)[folded Cons] q] .
      also have "escapeNewlinesInJsonStrings_from False False (drop n cs @ rest)
              = drop n cs @ escapeNewlinesInJsonStrings_from False False rest"
      proof -
        have "length (drop n cs) < length cs" using other(1) by (simp add: Cons)
        from step[OF this other(4)[folded Cons]] show ?thesis .
      qed
      finally show ?thesis by simp
    qed
  qed
qed

lemma escapeNewlines_well_formed:
  assumes "tokenize cs = Some ts"
  shows "escapeNewlinesInJsonStrings cs = cs"
  using escape_tokens[OF assms, of "[]"] by (simp add: escapeNewlinesInJsonStrings_def)

subsection \<open>Around the object: trimming, the first brace, blocks behind it\<close>

lemma dropWhile_before_core:
  assumes "b \<noteq> []" and "\<not> P (hd b)"
  shows "dropWhile P (a @ b @ c) = dropWhile P a @ b @ c"
  using assms by (induction a) (auto simp: neq_Nil_conv)

lemma trim_keeps_core:
  assumes "b \<noteq> []" and "\<not> is_space (hd b)" and "\<not> is_space (last b)"
  shows "trim (a @ b @ c) = dropWhile is_space a @ b @ rev (dropWhile is_space (rev c))"
proof -
  have 1: "dropWhile is_space (a @ b @ c) = dropWhile is_space a @ b @ c"
    using assms(1,2) by (rule dropWhile_before_core[where P = is_space])
  have 2: "dropWhile is_space (rev c @ rev b @ rev (dropWhile is_space a))
             = dropWhile is_space (rev c) @ rev b @ rev (dropWhile is_space a)"
    by (rule dropWhile_before_core[where P = is_space]) (use assms in \<open>simp_all add: hd_rev\<close>)
  show ?thesis
    by (simp add: trim_def 1 2)
qed

lemma first_brace:
  assumes "CHR ''{'' \<notin> set a" and "b \<noteq> []" and "hd b = CHR ''{''"
  shows "takeWhile (\<lambda>c. c \<noteq> CHR ''{'') (a @ b @ c) = a"
proof -
  from assms(2,3) have "takeWhile (\<lambda>c. c \<noteq> CHR ''{'') (b @ c) = []"
    by (cases b) auto
  moreover have "takeWhile (\<lambda>c. c \<noteq> CHR ''{'') (a @ (b @ c)) = a @ takeWhile (\<lambda>c. c \<noteq> CHR ''{'') (b @ c)"
    by (rule takeWhile_append2) (use assms(1) in auto)
  ultimately show ?thesis by simp
qed

lemma gsub_untouched_prefix:
  assumes "\<forall>i<length a. \<forall>p. m p (drop i a @ b) = None"
  shows "gsub m rep prev (a @ b) = a @ gsub m rep (if a = [] then prev else Some (last a)) b"
  using assms
proof (induction a arbitrary: prev)
  case Nil
  then show ?case by simp
next
  case (Cons x xs)
  from Cons.prems have "m prev (x # xs @ b) = None" by force
  moreover have "gsub m rep (Some x) (xs @ b) = xs @ gsub m rep (if xs = [] then Some x else Some (last xs)) b"
  proof (rule Cons.IH)
    show "\<forall>i<length xs. \<forall>p. m p (drop i xs @ b) = None"
      using Cons.prems by (metis Suc_less_eq drop_Suc_Cons length_Cons)
  qed
  ultimately show ?case by simp
qed

lemma ci_prefix_across:
  assumes "ci_prefix p (xs @ ys)" and "xs \<noteq> []"
  shows "ci_prefix p xs \<or> (\<exists>c\<in>set p. lower (last xs) = lower c)"
  using assms
proof (induction p arbitrary: xs)
  case Nil
  then show ?case by simp
next
  case (Cons c p)
  then obtain x xs' where xs: "xs = x # xs'" by (cases xs) auto
  with Cons.prems(1) have x: "lower x = lower c" and rest: "ci_prefix p (xs' @ ys)" by auto
  show ?case
  proof (cases "xs' = []")
    case True
    with x xs show ?thesis by auto
  next
    case False
    from Cons.IH[OF rest False] x xs False show ?thesis by auto
  qed
qed

lemma find_ci_None_here:
  assumes "find_ci p s = None"
  shows "\<not> ci_prefix p s"
  using assms by (cases s) (auto split: if_splits)

lemma no_block_before_brace:
  assumes "find_ci ''<think>'' a = None" and "a \<noteq> []" and "last a = CHR ''}''" and "i < length a"
  shows "think_block p (drop i a @ b) = None"
proof -
  have ne: "drop i a \<noteq> []" using assms(4) by simp
  have "\<not> ci_prefix ''<think>'' (drop i a @ b)"
  proof
    assume "ci_prefix ''<think>'' (drop i a @ b)"
    from ci_prefix_across[OF this ne]
    have "ci_prefix ''<think>'' (drop i a) \<or> (\<exists>c\<in>set ''<think>''. lower (last (drop i a)) = lower c)" .
    moreover have "\<not> ci_prefix ''<think>'' (drop i a)"
      using find_ci_None_here[OF find_ci_None_drop[OF assms(1)]] .
    moreover have "last (drop i a) = CHR ''}''"
      using assms(3,4) by (simp add: last_drop)
    ultimately show False by (auto simp: lower_def)
  qed
  then show ?thesis by (simp add: think_block_def)
qed

lemma no_trailing_comma_anywhere:
  assumes "\<not> has_trailing_comma s"
  shows "trailing_comma p (drop k s) = None"
proof -
  have ind: "trailing_comma p s = trailing_comma None s" for s
    by (simp add: trailing_comma_def)
  from assms have "trailing_comma None (drop k s) = None"
  proof (induction s arbitrary: k)
    case Nil
    then show ?case by (simp add: trailing_comma_def)
  next
    case (Cons c cs)
    then show ?case by (cases k) auto
  qed
  with ind show ?thesis by simp
qed

lemma JSON_parse_nonempty:
  assumes "JSON_parse B s = Some v"
  shows "s \<noteq> []"
  using assms by (auto simp: JSON_parse_def tokenize.simps)

lemma brace_not_space: "\<not> is_space (CHR ''{'')" "\<not> is_space (CHR ''}'')"
  by (simp_all add: is_space_def)

text \<open>
  C4, as the program has it. Let a text consist of leading prose and an opening fence
  without an opening brace, the text of one well-formed object, from its opening to its
  closing brace, and anything behind it. If no opening marker \<open><think>\<close> occurs before the
  end of the object, and the object's text has no comma that white space or nothing
  separates from a closing brace or bracket (in a well-formed object such a comma can
  only stand inside a string), then \<open>extractJsonObject\<close> returns what \<open>JSON.parse\<close> returns
  on the object's text.
\<close>

theorem extractJsonObject_fenced:
  assumes "JSON_parse B obj = Some v"
    and "hd obj = CHR ''{''" and "last obj = CHR ''}''"
    and "CHR ''{'' \<notin> set lead"
    and "find_ci ''<think>'' (lead @ obj) = None"
    and "\<not> has_trailing_comma obj"
  shows "extractJsonObject B (lead @ obj @ trail) = JSON_parse B obj"
proof -
  from JSON_parse_nonempty[OF assms(1)] have ne: "obj \<noteq> []" .
  with assms(2) obtain body where obj: "obj = CHR ''{'' # body" by (cases obj) auto
  from JSON_parse_object_closes[OF assms(1)[unfolded obj]]
  obtain ts where ts: "tokenize obj = Some ts" "closes_at_end 0 ts" by (auto simp: obj)
  have core: "\<not> is_space (hd obj)" "\<not> is_space (last obj)"
    using assms(2,3) brace_not_space by simp_all
  define trail' where "trail' = gsub think_block (\<lambda>matched. []) (Some (last obj)) trail"
  define a where "a = dropWhile is_space lead"
  define c where "c = rev (dropWhile is_space (rev trail'))"
  have "\<forall>i<length (lead @ obj). \<forall>p. think_block p (drop i (lead @ obj) @ trail) = None"
    using no_block_before_brace[OF assms(5)] ne assms(3) by simp
  from gsub_untouched_prefix[OF this, of "\<lambda>matched. []" None]
  have "replace_all think_block (\<lambda>matched. []) (lead @ obj @ trail) = lead @ obj @ trail'"
    using ne by (simp add: replace_all_def trail'_def)
  then have "stripThinkTags (lead @ obj @ trail) = a @ obj @ c"
    by (simp add: stripThinkTags_def trim_keeps_core[OF ne core] a_def c_def)
  moreover have "trim (a @ obj @ c) = a @ obj @ c"
    by (simp add: trim_keeps_core[OF ne core] a_def c_def)
  ultimately have cleaned: "trim (stripThinkTags (lead @ obj @ trail)) = a @ obj @ c" by simp
  have "CHR ''{'' \<notin> set a"
    using assms(4) set_dropWhileD unfolding a_def by fastforce
  from first_brace[OF this ne assms(2)]
  have first: "takeWhile (\<lambda>c. c \<noteq> CHR ''{'') (a @ obj @ c) = a" .
  have scan: "matching_brace 0 False False (CHR 0x22) (obj @ c) = Some (length obj - 1)"
    using matching_brace_closes[OF ts assms(3)] .
  have slice: "take (length obj - 1 + 1) (obj @ c) = obj"
    using ne by (simp add: Suc_leI)
  have commas: "replace_all trailing_comma tl obj = obj"
    unfolding replace_all_def
    by (rule gsub_no_match) (simp add: no_trailing_comma_anywhere[OF assms(6)])
  have escapes: "escapeNewlinesInJsonStrings obj = obj"
    using escapeNewlines_well_formed[OF ts(1)] .
  show ?thesis
    unfolding extractJsonObject_def cleaned Let_def first
    using ne by (simp add: scan slice commas escapes)
qed

theorem extractJsonObject_fenced_witness:
  "JSON_parse int_builtins scenarioA_text = Some scenarioA_object
   \<and> hd scenarioA_text = CHR ''{'' \<and> last scenarioA_text = CHR ''}''
   \<and> CHR ''{'' \<notin> set scenarioA_lead
   \<and> find_ci ''<think>'' (scenarioA_lead @ scenarioA_text) = None
   \<and> \<not> has_trailing_comma scenarioA_text
   \<and> extractJsonObject int_builtins (scenarioA_lead @ scenarioA_text @ scenarioA_trail) = Some scenarioA_object"
proof -
  have a: "JSON_parse int_builtins scenarioA_text = Some scenarioA_object" by code_simp
  have b: "hd scenarioA_text = CHR ''{''" by (simp add: scenarioA_text_def)
  have c: "last scenarioA_text = CHR ''}''" by (simp add: scenarioA_text_def)
  have d: "CHR ''{'' \<notin> set scenarioA_lead" by (simp add: scenarioA_lead_def nl_def)
  have e: "find_ci ''<think>'' (scenarioA_lead @ scenarioA_text) = None" by code_simp
  have f: "\<not> has_trailing_comma scenarioA_text" by code_simp
  from extractJsonObject_fenced[OF a b c d e f, of scenarioA_trail] a b c d e f
  show ?thesis by simp
qed

text \<open>
  The claim itself fails when the object quotes a block: the block is removed before the
  object is looked for, so the parsed question differs from the one in the fence.
\<close>

theorem block_inside_object_is_stripped:
  "extractJsonObject int_builtins (''```json'' @ nl @ quoting_text @ nl @ ''```'')
     = Some (JObj [(lit ''question'', JStr (lit ''What does  print?'')), (lit ''startLine'', JNum (num 1)),
                   (lit ''endLine'', JNum (num 2))])
   \<and> JSON_parse int_builtins quoting_text
     = Some (JObj [(lit ''question'', JStr (lit ''What does <think>x</think> print?'')),
                   (lit ''startLine'', JNum (num 1)), (lit ''endLine'', JNum (num 2))])"
  by code_simp
end
